theory Spec2Isabelle
  imports Main "HOL-Library.Word"
begin

section \<open>The runtime life cycle of Runtime.cpp\<close>

text \<open>
  This theory embeds \<^verbatim>\<open>runtime/src/main/cpp/Runtime.cpp\<close>: the chain of initializers, the
  registry of runtime instances, the per-thread binding, the status transitions and the
  interrupt handler.

  Objects live in explicit stores indexed by addresses; a nullable pointer is an
  \<open>option\<close>. Every function takes the state of the process and returns the new one. A
  thread-local variable is a function of the thread, and a thread is identified with the
  value \<^verbatim>\<open>konan::currentThread()\<close> returns on it, so every function that reads a
  thread-local variable or calls \<^verbatim>\<open>konan::currentThread()\<close> takes the calling thread \<open>t\<close>.
  Values returned by collaborators (the allocator, the memory subsystem) are parameters.

  The state carries a trace: every call of a function with an effect outside this file,
  every call of \<^verbatim>\<open>InitOrDeinitGlobalVariables\<close> and every store to a variable or a field
  appends one event, in program order. Initializers and interrupt handlers are code of the
  embedder; the model records their calls and takes them to leave the state of this file
  alone.
\<close>

subsection \<open>Data\<close>

type_synonym addr = nat
type_synonym thread = "64 word"

text \<open>\<^verbatim>\<open>struct InitNode { Initializer init; InitNode* next; }\<close>; a function pointer is a number.\<close>

record InitNode =
  init :: nat
  "next" :: "addr option"

text \<open>
  Modelled from the spec: \<^verbatim>\<open>RuntimeState\<close> is declared in \<^verbatim>\<open>MemoryPrivate.hpp\<close>, which is
  not among the sources. The fields are the ones Runtime.cpp uses; the spec calls them
  creatingThreadId, interruptHandler, memoryHandle, registry link and status.
\<close>

record RuntimeState =
  threadId :: thread
  handler :: "nat option"
  memoryState :: nat
  "next" :: "addr option"
  executionStatus :: "32 word"

definition INIT_GLOBALS :: "32 word" where "INIT_GLOBALS = 0"
definition INIT_THREAD_LOCAL_GLOBALS :: "32 word" where "INIT_THREAD_LOCAL_GLOBALS = 1"
definition DEINIT_THREAD_LOCAL_GLOBALS :: "32 word" where "DEINIT_THREAD_LOCAL_GLOBALS = 2"
definition DEINIT_GLOBALS :: "32 word" where "DEINIT_GLOBALS = 3"

definition SUSPENDED :: "32 word" where "SUSPENDED = 0"
definition RUNNING :: "32 word" where "RUNNING = 1"
definition DESTROYING :: "32 word" where "DESTROYING = 2"

datatype location =
    G_initHeadNode
  | G_initTailNode
  | G_runtimeStateList
  | TL_runtimeState thread
  | TL_isMainThread thread
  | F_threadId addr
  | F_handler addr
  | F_memoryState addr
  | F_next addr
  | N_next addr

datatype event =
    Call_SetKonanTerminateHandler
  | Call_konanConstructInstance
  | Call_konanDestructInstance addr
  | Call_InitMemory
  | Call_DeinitMemory nat
  | Call_SuspendMemory
  | Call_ResumeMemory nat
  | Call_atomicAdd "32 word" "32 word"
  | Call_compareAndSwap addr "32 word" "32 word"
  | Call_spinLock
  | Call_spinUnlock
  | Call_setThreadInterruptHandler
  | Call_consoleInit
  | Call_onThreadExit
  | Call_InitOrDeinitGlobalVariables "32 word"
  | Call_init nat "32 word"
  | Call_handler nat addr
  | Store location

text \<open>
  \<open>Call_atomicAdd d v\<close>: the counter was changed by \<open>d\<close> and the call returned \<open>v\<close>.
  \<open>Call_compareAndSwap p old new\<close>: a compare-and-swap of the status of \<open>p\<close> expecting \<open>old\<close>.
  \<open>Call_init f tag\<close>: initializer \<open>f\<close> was called with the phase \<open>tag\<close>.
\<close>

record state =
  initHeadNode :: "addr option"
  initTailNode :: "addr option"
  nodes :: "addr \<Rightarrow> InitNode option"
  runtimeState :: "thread \<Rightarrow> addr option"
  isMainThread :: "thread \<Rightarrow> 32 word"
  aliveRuntimesCount :: "32 word"
  runtimesLock :: "32 word"
  runtimeStateList :: "addr option"
  heap :: "addr \<Rightarrow> RuntimeState option"
  trace :: "event list"

text \<open>The state at program start: the initializers of the global variables of the file.\<close>

definition initial :: state where
  "initial = \<lparr>initHeadNode = None, initTailNode = None, nodes = (\<lambda>a. None),
     runtimeState = (\<lambda>t. None), isMainThread = (\<lambda>t. 0), aliveRuntimesCount = 0,
     runtimesLock = 0, runtimeStateList = None, heap = (\<lambda>a. None), trace = []\<rparr>"

text \<open>
  A call ends in a value or does not return: a failed \<^verbatim>\<open>RuntimeCheck\<close> terminates the
  process, an access through a null or dangling pointer is undefined behaviour, and a loop
  or a spin lock may run forever.
\<close>

datatype error = Fatal string | InvalidPointer | NoReturn

definition seq :: "error + 'a \<Rightarrow> ('a \<Rightarrow> error + 'b) \<Rightarrow> error + 'b" where
  "seq m f = (case m of Inl e \<Rightarrow> Inl e | Inr x \<Rightarrow> f x)"

definition log :: "event \<Rightarrow> state \<Rightarrow> state" where
  "log e s = s\<lparr>trace := trace s @ [e]\<rparr>"

subsection \<open>Collaborators\<close>

text \<open>
  Modelled from the spec: \<^verbatim>\<open>RuntimeCheck\<close> is a macro of a header that is not among the
  sources; the spec's \<open>check(condition, message)\<close> terminates the process if the condition
  is false.
\<close>

definition RuntimeCheck :: "bool \<Rightarrow> string \<Rightarrow> error + unit" where
  "RuntimeCheck condition message = (if condition then Inr () else Inl (Fatal message))"

text \<open>
  Modelled from the spec: \<^verbatim>\<open>atomicAdd\<close> is declared in \<^verbatim>\<open>Atomic.h\<close>, not among the sources.
  The spec increments the count atomically and tests whether "this increment made the
  count 1": the call returns the new value. The counter is a 32-bit \<^verbatim>\<open>int\<close>.
\<close>

definition atomicAdd :: "32 word \<Rightarrow> state \<Rightarrow> 32 word \<times> state" where
  "atomicAdd amount s =
     (let v = aliveRuntimesCount s + amount
      in (v, log (Call_atomicAdd amount v) (s\<lparr>aliveRuntimesCount := v\<rparr>)))"

text \<open>
  Modelled from the spec: \<^verbatim>\<open>konanConstructInstance\<close> and \<^verbatim>\<open>konanDestructInstance\<close> are
  declared in \<^verbatim>\<open>Alloc.h\<close>, not among the sources. The allocation yields a null pointer or
  the address \<open>alloc\<close> of a new object, whose fields have their zero-valued defaults.
\<close>

definition zeroed :: RuntimeState where
  "zeroed = \<lparr>threadId = 0, handler = None, memoryState = 0, next = None, executionStatus = 0\<rparr>"

definition konanConstructInstance :: "addr option \<Rightarrow> state \<Rightarrow> addr option \<times> state" where
  "konanConstructInstance alloc s =
     (case alloc of
        None \<Rightarrow> (None, log Call_konanConstructInstance s)
      | Some p \<Rightarrow> (Some p, log Call_konanConstructInstance (s\<lparr>heap := (heap s)(p \<mapsto> zeroed)\<rparr>)))"

definition konanDestructInstance :: "addr \<Rightarrow> state \<Rightarrow> state" where
  "konanDestructInstance p s = log (Call_konanDestructInstance p) (s\<lparr>heap := (heap s)(p := None)\<rparr>)"

text \<open>
  Modelled from the spec: \<^verbatim>\<open>spinLock\<close> and \<^verbatim>\<open>spinUnlock\<close> are declared in \<^verbatim>\<open>Atomic.h\<close>, not
  among the sources; the spec has a non-reentrant, busy-wait mutual exclusion. The lock
  word is 1 while the lock is held (\<^verbatim>\<open>Kotlin_iterateRuntimes\<close> checks that). With no other
  thread running to release it, waiting for a held lock does not return.
\<close>

definition Kotlin_lockRuntimes :: "state \<Rightarrow> error + state" where
  "Kotlin_lockRuntimes s =
     (if runtimesLock s = 0 then Inr (log Call_spinLock (s\<lparr>runtimesLock := 1\<rparr>))
      else Inl NoReturn)"

definition Kotlin_unlockRuntimes :: "state \<Rightarrow> state" where
  "Kotlin_unlockRuntimes s = log Call_spinUnlock (s\<lparr>runtimesLock := 0\<rparr>)"

subsection \<open>Stores through pointers\<close>

definition store_threadId :: "addr option \<Rightarrow> thread \<Rightarrow> state \<Rightarrow> error + state" where
  "store_threadId ptr v s =
     (case ptr of None \<Rightarrow> Inl InvalidPointer
      | Some p \<Rightarrow> (case heap s p of None \<Rightarrow> Inl InvalidPointer
         | Some r \<Rightarrow> Inr (log (Store (F_threadId p)) (s\<lparr>heap := (heap s)(p \<mapsto> r\<lparr>threadId := v\<rparr>)\<rparr>))))"

definition store_handler :: "addr option \<Rightarrow> nat option \<Rightarrow> state \<Rightarrow> error + state" where
  "store_handler ptr v s =
     (case ptr of None \<Rightarrow> Inl InvalidPointer
      | Some p \<Rightarrow> (case heap s p of None \<Rightarrow> Inl InvalidPointer
         | Some r \<Rightarrow> Inr (log (Store (F_handler p)) (s\<lparr>heap := (heap s)(p \<mapsto> r\<lparr>handler := v\<rparr>)\<rparr>))))"

definition store_memoryState :: "addr option \<Rightarrow> nat \<Rightarrow> state \<Rightarrow> error + state" where
  "store_memoryState ptr v s =
     (case ptr of None \<Rightarrow> Inl InvalidPointer
      | Some p \<Rightarrow> (case heap s p of None \<Rightarrow> Inl InvalidPointer
         | Some r \<Rightarrow> Inr (log (Store (F_memoryState p)) (s\<lparr>heap := (heap s)(p \<mapsto> r\<lparr>memoryState := v\<rparr>)\<rparr>))))"

definition store_next :: "addr option \<Rightarrow> addr option \<Rightarrow> state \<Rightarrow> error + state" where
  "store_next ptr v s =
     (case ptr of None \<Rightarrow> Inl InvalidPointer
      | Some p \<Rightarrow> (case heap s p of None \<Rightarrow> Inl InvalidPointer
         | Some r \<Rightarrow> Inr (log (Store (F_next p)) (s\<lparr>heap := (heap s)(p \<mapsto> r\<lparr>RuntimeState.next := v\<rparr>)\<rparr>))))"

definition load_memoryState :: "addr option \<Rightarrow> state \<Rightarrow> error + nat" where
  "load_memoryState ptr s =
     (case ptr of None \<Rightarrow> Inl InvalidPointer
      | Some p \<Rightarrow> (case heap s p of None \<Rightarrow> Inl InvalidPointer | Some r \<Rightarrow> Inr (memoryState r)))"

definition store_runtimeStateList :: "addr option \<Rightarrow> state \<Rightarrow> state" where
  "store_runtimeStateList v s = log (Store G_runtimeStateList) (s\<lparr>runtimeStateList := v\<rparr>)"

definition store_runtimeState :: "thread \<Rightarrow> addr option \<Rightarrow> state \<Rightarrow> state" where
  "store_runtimeState t v s = log (Store (TL_runtimeState t)) (s\<lparr>runtimeState := (runtimeState s)(t := v)\<rparr>)"

definition store_isMainThread :: "thread \<Rightarrow> 32 word \<Rightarrow> state \<Rightarrow> state" where
  "store_isMainThread t v s = log (Store (TL_isMainThread t)) (s\<lparr>isMainThread := (isMainThread s)(t := v)\<rparr>)"

subsection \<open>The functions of the file\<close>

text \<open>
  \<^verbatim>\<open>updateStatusIf\<close>: one compare-and-swap of the status field (the branch without threads
  does the same in two steps).
\<close>

definition updateStatusIf :: "addr option \<Rightarrow> 32 word \<Rightarrow> 32 word \<Rightarrow> state \<Rightarrow> error + (bool \<times> state)" where
  "updateStatusIf ptr oldStatus newStatus s =
     (case ptr of None \<Rightarrow> Inl InvalidPointer
      | Some p \<Rightarrow> (case heap s p of None \<Rightarrow> Inl InvalidPointer
         | Some r \<Rightarrow>
             if executionStatus r = oldStatus
             then Inr (True, log (Call_compareAndSwap p oldStatus newStatus)
                        (s\<lparr>heap := (heap s)(p \<mapsto> r\<lparr>executionStatus := newStatus\<rparr>)\<rparr>))
             else Inr (False, log (Call_compareAndSwap p oldStatus newStatus) s)))"

text \<open>The loop of \<^verbatim>\<open>InitOrDeinitGlobalVariables\<close>, from \<open>currNode\<close> on.\<close>

partial_function (option) walk_initializers :: "32 word \<Rightarrow> addr option \<Rightarrow> state \<Rightarrow> (error + state) option" where
  "walk_initializers initialize currNode s =
     (case currNode of
        None \<Rightarrow> Some (Inr s)
      | Some c \<Rightarrow> (case nodes s c of
           None \<Rightarrow> Some (Inl InvalidPointer)
         | Some n \<Rightarrow> walk_initializers initialize (InitNode.next n) (log (Call_init (init n) initialize) s)))"

definition InitOrDeinitGlobalVariables :: "32 word \<Rightarrow> state \<Rightarrow> error + state" where
  "InitOrDeinitGlobalVariables initialize s =
     (case walk_initializers initialize (initHeadNode s) (log (Call_InitOrDeinitGlobalVariables initialize) s) of
        None \<Rightarrow> Inl NoReturn
      | Some r \<Rightarrow> r)"

text \<open>The search loop of \<^verbatim>\<open>threadInterruptHandler\<close>, from \<open>current\<close> on; it yields the new \<open>state\<close>.\<close>

partial_function (option) search_thread :: "(addr \<Rightarrow> RuntimeState option) \<Rightarrow> thread \<Rightarrow> addr option \<Rightarrow> (error + addr option) option" where
  "search_thread h tid current =
     (case current of
        None \<Rightarrow> Some (Inr None)
      | Some c \<Rightarrow> (case h c of
           None \<Rightarrow> Some (Inl InvalidPointer)
         | Some r \<Rightarrow> if threadId r = tid then Some (Inr (Some c)) else search_thread h tid (RuntimeState.next r)))"

definition threadInterruptHandler :: "thread \<Rightarrow> int \<Rightarrow> state \<Rightarrow> error + state" where
  "threadInterruptHandler t ignore s =
     seq (if runtimeState s t = None \<and> runtimesLock s \<noteq> 0
          then (case search_thread (heap s) t (runtimeStateList s) of None \<Rightarrow> Inl NoReturn | Some r \<Rightarrow> r)
          else Inr (runtimeState s t))
       (\<lambda>state. case state of
           None \<Rightarrow> Inr s
         | Some p \<Rightarrow> (case heap s p of
              None \<Rightarrow> Inl InvalidPointer
            | Some r \<Rightarrow> (case handler r of
                 None \<Rightarrow> Inr s
               | Some h \<Rightarrow> Inr (log (Call_handler h p) s))))"

definition initRuntime :: "thread \<Rightarrow> addr option \<Rightarrow> nat \<Rightarrow> state \<Rightarrow> error + (addr option \<times> state)" where
  "initRuntime t alloc mem s =
     (let (result, s) = konanConstructInstance alloc (log Call_SetKonanTerminateHandler s)
      in if result = None then Inr (None, s)
         else
           seq (store_threadId result t s) (\<lambda>s.
           seq (store_handler result None s) (\<lambda>s.
           seq (store_memoryState result mem (log Call_InitMemory s)) (\<lambda>s.
           let (v, s) = atomicAdd 1 s; firstRuntime = (v = 1) in
           seq (Kotlin_lockRuntimes s) (\<lambda>s.
           seq (store_next result (runtimeStateList s) s) (\<lambda>s.
           let s = store_runtimeStateList result s;
               s = Kotlin_unlockRuntimes s in
           seq (if firstRuntime
                then InitOrDeinitGlobalVariables INIT_GLOBALS
                       (log Call_consoleInit
                         (store_isMainThread t 1
                           (log Call_setThreadInterruptHandler s)))
                else Inr s) (\<lambda>s.
           seq (InitOrDeinitGlobalVariables INIT_THREAD_LOCAL_GLOBALS s) (\<lambda>s.
           Inr (result, s)))))))))"

text \<open>The unlink loop of \<^verbatim>\<open>deinitRuntime\<close>, from \<open>current\<close> and \<open>previous\<close> on.\<close>

partial_function (option) unlink_runtime :: "addr option \<Rightarrow> addr option \<Rightarrow> addr option \<Rightarrow> state \<Rightarrow> (error + state) option" where
  "unlink_runtime state current previous s =
     (case current of
        None \<Rightarrow> Some (Inr s)
      | Some c \<Rightarrow> (case heap s c of
           None \<Rightarrow> Some (Inl InvalidPointer)
         | Some r \<Rightarrow>
             if current = state
             then (if previous \<noteq> None
                   then Some (store_next previous (RuntimeState.next r) s)
                   else Some (Inr (store_runtimeStateList (RuntimeState.next r) s)))
             else unlink_runtime state (RuntimeState.next r) current s))"

definition deinitRuntime :: "addr option \<Rightarrow> state \<Rightarrow> error + state" where
  "deinitRuntime state s =
     (let (v, s) = atomicAdd (- 1) s; lastRuntime = (v = 0) in
      seq (InitOrDeinitGlobalVariables DEINIT_THREAD_LOCAL_GLOBALS s) (\<lambda>s.
      seq (if lastRuntime then InitOrDeinitGlobalVariables DEINIT_GLOBALS s else Inr s) (\<lambda>s.
      seq (Kotlin_lockRuntimes s) (\<lambda>s.
      seq (case unlink_runtime state (runtimeStateList s) None s of None \<Rightarrow> Inl NoReturn | Some r \<Rightarrow> r) (\<lambda>s.
      let s = Kotlin_unlockRuntimes s in
      seq (load_memoryState state s) (\<lambda>m.
      case state of
        None \<Rightarrow> Inl InvalidPointer
      | Some p \<Rightarrow> Inr (konanDestructInstance p (log (Call_DeinitMemory m) s))))))))"

definition AppendToInitializersTail :: "addr option \<Rightarrow> state \<Rightarrow> error + state" where
  "AppendToInitializersTail nxt s =
     seq (if initHeadNode s = None
          then Inr (log (Store G_initHeadNode) (s\<lparr>initHeadNode := nxt\<rparr>))
          else (case initTailNode s of
                  None \<Rightarrow> Inl InvalidPointer
                | Some tail \<Rightarrow> (case nodes s tail of
                     None \<Rightarrow> Inl InvalidPointer
                   | Some n \<Rightarrow> Inr (log (Store (N_next tail))
                                  (s\<lparr>nodes := (nodes s)(tail \<mapsto> n\<lparr>InitNode.next := nxt\<rparr>)\<rparr>)))))
       (\<lambda>s. Inr (log (Store G_initTailNode) (s\<lparr>initTailNode := nxt\<rparr>)))"

definition Kotlin_deinitRuntimeIfNeeded :: "thread \<Rightarrow> state \<Rightarrow> error + state" where
  "Kotlin_deinitRuntimeIfNeeded t s =
     (if runtimeState s t \<noteq> None
      then
        seq (updateStatusIf (runtimeState s t) RUNNING DESTROYING s) (\<lambda>(ok, s).
        seq (RuntimeCheck ok ''Cannot transition state to DESTROYING'') (\<lambda>_.
        seq (deinitRuntime (runtimeState s t) s) (\<lambda>s.
        Inr (store_runtimeState t None s))))
      else Inr s)"

definition Kotlin_initRuntimeIfNeeded :: "thread \<Rightarrow> addr option \<Rightarrow> nat \<Rightarrow> state \<Rightarrow> error + state" where
  "Kotlin_initRuntimeIfNeeded t alloc mem s =
     (if runtimeState s t = None
      then
        seq (initRuntime t alloc mem s) (\<lambda>(result, s).
        let s = store_runtimeState t result s in
        seq (updateStatusIf (runtimeState s t) SUSPENDED RUNNING s) (\<lambda>(ok, s).
        seq (RuntimeCheck ok ''Cannot transition state to RUNNING for init'') (\<lambda>_.
        Inr (log Call_onThreadExit s))))
      else Inr s)"

definition Kotlin_createRuntime :: "thread \<Rightarrow> addr option \<Rightarrow> nat \<Rightarrow> state \<Rightarrow> error + (addr option \<times> state)" where
  "Kotlin_createRuntime t alloc mem s = initRuntime t alloc mem s"

definition Kotlin_destroyRuntime :: "addr option \<Rightarrow> state \<Rightarrow> error + state" where
  "Kotlin_destroyRuntime state s =
     seq (updateStatusIf state SUSPENDED DESTROYING s) (\<lambda>(ok, s).
     seq (RuntimeCheck ok ''Cannot transition state to DESTROYING'') (\<lambda>_.
     deinitRuntime state s))"

definition Kotlin_suspendRuntime :: "thread \<Rightarrow> nat \<Rightarrow> state \<Rightarrow> error + (addr option \<times> state)" where
  "Kotlin_suspendRuntime t mem s =
     seq (RuntimeCheck (runtimeState s t \<noteq> None) ''Runtime must be active on the current thread'') (\<lambda>_.
     let result = runtimeState s t in
     seq (updateStatusIf result RUNNING SUSPENDED s) (\<lambda>(ok, s).
     seq (RuntimeCheck ok ''Cannot transition state to SUSPENDED for suspend'') (\<lambda>_.
     seq (store_memoryState result mem (log Call_SuspendMemory s)) (\<lambda>s.
     Inr (result, store_runtimeState t None s)))))"

definition Kotlin_resumeRuntime :: "thread \<Rightarrow> addr option \<Rightarrow> state \<Rightarrow> error + state" where
  "Kotlin_resumeRuntime t state s =
     seq (RuntimeCheck (runtimeState s t = None) ''Runtime must not be active on the current thread'') (\<lambda>_.
     seq (updateStatusIf state SUSPENDED RUNNING s) (\<lambda>(ok, s).
     seq (RuntimeCheck ok ''Cannot transition state to RUNNING for resume'') (\<lambda>_.
     let s = store_runtimeState t state s in
     seq (load_memoryState state s) (\<lambda>m.
     Inr (log (Call_ResumeMemory m) s)))))"

subsection \<open>Interleaved execution\<close>

text \<open>
  Threads run \<^verbatim>\<open>initRuntime\<close> and \<^verbatim>\<open>deinitRuntime\<close> concurrently. A call in progress is an
  activity: the function, the source line it is about to execute, its parameters and its
  local variables (\<open>result\<close> and \<open>firstRuntime\<close>, or \<open>lastRuntime\<close>). One step executes one
  line. A thread that finds the lock taken at line 106 or 126 stays there and tries
  again; the loop of lines 127 to 139 runs under the lock and is one step, and so is one
  call of \<^verbatim>\<open>InitOrDeinitGlobalVariables\<close>.
\<close>

datatype line =
    L99 | L100 | L101 | L102 | L103 | L104 | L105 | L106 | L107 | L108 | L109
  | L111 | L112 | L113 | L114 | L115 | L117 | L118
  | L122 | L123 | L124 | L125 | L126 | L127 | L140 | L141 | L142

datatype activity =
    InitRuntime line thread "addr option" nat "addr option" bool
  | DeinitRuntime line "addr option" bool
  | Returned "addr option"

fun step :: "activity \<Rightarrow> state \<Rightarrow> error + (activity \<times> state)" where
  "step (InitRuntime L99 t alloc mem result firstRuntime) s =
     Inr (InitRuntime L100 t alloc mem result firstRuntime, log Call_SetKonanTerminateHandler s)"
| "step (InitRuntime L100 t alloc mem result firstRuntime) s =
     (let (result, s) = konanConstructInstance alloc s
      in Inr (InitRuntime L101 t alloc mem result firstRuntime, s))"
| "step (InitRuntime L101 t alloc mem result firstRuntime) s =
     (if result = None then Inr (Returned None, s)
      else Inr (InitRuntime L102 t alloc mem result firstRuntime, s))"
| "step (InitRuntime L102 t alloc mem result firstRuntime) s =
     seq (store_threadId result t s) (\<lambda>s. Inr (InitRuntime L103 t alloc mem result firstRuntime, s))"
| "step (InitRuntime L103 t alloc mem result firstRuntime) s =
     seq (store_handler result None s) (\<lambda>s. Inr (InitRuntime L104 t alloc mem result firstRuntime, s))"
| "step (InitRuntime L104 t alloc mem result firstRuntime) s =
     seq (store_memoryState result mem (log Call_InitMemory s))
       (\<lambda>s. Inr (InitRuntime L105 t alloc mem result firstRuntime, s))"
| "step (InitRuntime L105 t alloc mem result firstRuntime) s =
     (let (v, s) = atomicAdd 1 s in Inr (InitRuntime L106 t alloc mem result (v = 1), s))"
| "step (InitRuntime L106 t alloc mem result firstRuntime) s =
     (if runtimesLock s = 0
      then Inr (InitRuntime L107 t alloc mem result firstRuntime, log Call_spinLock (s\<lparr>runtimesLock := 1\<rparr>))
      else Inr (InitRuntime L106 t alloc mem result firstRuntime, s))"
| "step (InitRuntime L107 t alloc mem result firstRuntime) s =
     seq (store_next result (runtimeStateList s) s)
       (\<lambda>s. Inr (InitRuntime L108 t alloc mem result firstRuntime, s))"
| "step (InitRuntime L108 t alloc mem result firstRuntime) s =
     Inr (InitRuntime L109 t alloc mem result firstRuntime, store_runtimeStateList result s)"
| "step (InitRuntime L109 t alloc mem result firstRuntime) s =
     Inr (InitRuntime L111 t alloc mem result firstRuntime, Kotlin_unlockRuntimes s)"
| "step (InitRuntime L111 t alloc mem result firstRuntime) s =
     (if firstRuntime then Inr (InitRuntime L112 t alloc mem result firstRuntime, s)
      else Inr (InitRuntime L117 t alloc mem result firstRuntime, s))"
| "step (InitRuntime L112 t alloc mem result firstRuntime) s =
     Inr (InitRuntime L113 t alloc mem result firstRuntime, log Call_setThreadInterruptHandler s)"
| "step (InitRuntime L113 t alloc mem result firstRuntime) s =
     Inr (InitRuntime L114 t alloc mem result firstRuntime, store_isMainThread t 1 s)"
| "step (InitRuntime L114 t alloc mem result firstRuntime) s =
     Inr (InitRuntime L115 t alloc mem result firstRuntime, log Call_consoleInit s)"
| "step (InitRuntime L115 t alloc mem result firstRuntime) s =
     seq (InitOrDeinitGlobalVariables INIT_GLOBALS s)
       (\<lambda>s. Inr (InitRuntime L117 t alloc mem result firstRuntime, s))"
| "step (InitRuntime L117 t alloc mem result firstRuntime) s =
     seq (InitOrDeinitGlobalVariables INIT_THREAD_LOCAL_GLOBALS s)
       (\<lambda>s. Inr (InitRuntime L118 t alloc mem result firstRuntime, s))"
| "step (InitRuntime L118 t alloc mem result firstRuntime) s = Inr (Returned result, s)"
| "step (DeinitRuntime L122 state lastRuntime) s =
     (let (v, s) = atomicAdd (- 1) s in Inr (DeinitRuntime L123 state (v = 0), s))"
| "step (DeinitRuntime L123 state lastRuntime) s =
     seq (InitOrDeinitGlobalVariables DEINIT_THREAD_LOCAL_GLOBALS s)
       (\<lambda>s. Inr (DeinitRuntime L124 state lastRuntime, s))"
| "step (DeinitRuntime L124 state lastRuntime) s =
     (if lastRuntime then Inr (DeinitRuntime L125 state lastRuntime, s)
      else Inr (DeinitRuntime L126 state lastRuntime, s))"
| "step (DeinitRuntime L125 state lastRuntime) s =
     seq (InitOrDeinitGlobalVariables DEINIT_GLOBALS s)
       (\<lambda>s. Inr (DeinitRuntime L126 state lastRuntime, s))"
| "step (DeinitRuntime L126 state lastRuntime) s =
     (if runtimesLock s = 0
      then Inr (DeinitRuntime L127 state lastRuntime, log Call_spinLock (s\<lparr>runtimesLock := 1\<rparr>))
      else Inr (DeinitRuntime L126 state lastRuntime, s))"
| "step (DeinitRuntime L127 state lastRuntime) s =
     seq (case unlink_runtime state (runtimeStateList s) None s of None \<Rightarrow> Inl NoReturn | Some r \<Rightarrow> r)
       (\<lambda>s. Inr (DeinitRuntime L140 state lastRuntime, s))"
| "step (DeinitRuntime L140 state lastRuntime) s =
     Inr (DeinitRuntime L141 state lastRuntime, Kotlin_unlockRuntimes s)"
| "step (DeinitRuntime L141 state lastRuntime) s =
     seq (load_memoryState state s)
       (\<lambda>m. Inr (DeinitRuntime L142 state lastRuntime, log (Call_DeinitMemory m) s))"
| "step (DeinitRuntime L142 state lastRuntime) s =
     (case state of
        None \<Rightarrow> Inl InvalidPointer
      | Some p \<Rightarrow> Inr (Returned None, konanDestructInstance p s))"
| "step (Returned result) s = Inr (Returned result, s)"
| "step (InitRuntime l t alloc mem result firstRuntime) s = Inl NoReturn"
| "step (DeinitRuntime l state lastRuntime) s = Inl NoReturn"

text \<open>
  The last two equations are for a function at a line of the other function; no run
  reaches them. An activity that has returned stays as it is.
\<close>

text \<open>
  A schedule names, step by step, the activity that moves next; \<open>interleave\<close> runs a list
  of activities under a schedule.
\<close>

fun interleave :: "nat list \<Rightarrow> activity list \<Rightarrow> state \<Rightarrow> error + (activity list \<times> state)" where
  "interleave [] as s = Inr (as, s)"
| "interleave (i # sched) as s =
     (if i < length as
      then seq (step (as ! i) s) (\<lambda>(a, s). interleave sched (as[i := a]) s)
      else interleave sched as s)"

subsection \<open>Auxiliary notions for the statements\<close>

text \<open>The events of one call of \<^verbatim>\<open>InitOrDeinitGlobalVariables\<close> that calls the initializers \<open>fs\<close> in this order.\<close>

definition phase_events :: "32 word \<Rightarrow> nat list \<Rightarrow> event list" where
  "phase_events tag fs = Call_InitOrDeinitGlobalVariables tag # map (\<lambda>f. Call_init f tag) fs"

text \<open>What the loop over the initializers leaves behind when it ends: calls of initializers, nothing else.\<close>

definition walk_post :: "32 word \<Rightarrow> state \<Rightarrow> error + state \<Rightarrow> bool" where
  "walk_post tag s y = (case y of Inl e \<Rightarrow> True
     | Inr s' \<Rightarrow> \<exists>fs. s' = s\<lparr>trace := trace s @ map (\<lambda>f. Call_init f tag) fs\<rparr>)"

text \<open>
  The events of \<^verbatim>\<open>initRuntime\<close> up to the release of the lock, where \<open>v\<close> is the value
  \<^verbatim>\<open>atomicAdd\<close> returned, the events of the first runtime before its \<^verbatim>\<open>INIT_GLOBALS\<close>, and the
  variables and fields after a creation.
\<close>

definition create_events :: "thread \<Rightarrow> addr \<Rightarrow> 32 word \<Rightarrow> event list" where
  "create_events t p v =
     [Call_SetKonanTerminateHandler, Call_konanConstructInstance, Store (F_threadId p),
      Store (F_handler p), Call_InitMemory, Store (F_memoryState p), Call_atomicAdd 1 v,
      Call_spinLock, Store (F_next p), Store G_runtimeStateList, Call_spinUnlock]"

definition first_events :: "thread \<Rightarrow> event list" where
  "first_events t = [Call_setThreadInterruptHandler, Store (TL_isMainThread t), Call_consoleInit]"

definition created :: "thread \<Rightarrow> addr \<Rightarrow> nat \<Rightarrow> state \<Rightarrow> state" where
  "created t p mem s = s\<lparr>
      aliveRuntimesCount := aliveRuntimesCount s + 1,
      heap := (heap s)(p \<mapsto> \<lparr>threadId = t, handler = None, memoryState = mem,
                 next = runtimeStateList s, executionStatus = 0\<rparr>),
      runtimeStateList := Some p,
      runtimesLock := 0,
      isMainThread := (if aliveRuntimesCount s + 1 = 1 then (isMainThread s)(t := 1) else isMainThread s)\<rparr>"

text \<open>\<open>occurs_after a b tr\<close>: the event \<open>b\<close> occurs in \<open>tr\<close> later than the first \<open>a\<close>.\<close>

definition occurs_after :: "event \<Rightarrow> event \<Rightarrow> event list \<Rightarrow> bool" where
  "occurs_after a b tr = (b \<in> set (drop 1 (dropWhile (\<lambda>e. e \<noteq> a) tr)))"

text \<open>
  Thread 5 after \<^verbatim>\<open>Kotlin_initRuntimeIfNeeded\<close> at program start, with the instance at
  address 16 (the trace left empty).
\<close>

definition attached_state :: state where
  "attached_state = \<lparr>initHeadNode = None, initTailNode = None, nodes = (\<lambda>a. None),
     runtimeState = (\<lambda>t. None)(5 := Some 16), isMainThread = (\<lambda>t. 0)(5 := 1),
     aliveRuntimesCount = 1, runtimesLock = 0, runtimeStateList = Some 16,
     heap = (\<lambda>a. None)(16 \<mapsto> \<lparr>threadId = 5, handler = None, memoryState = 42, next = None,
                          executionStatus = 1\<rparr>),
     trace = []\<rparr>"

text \<open>
  The registry as a list: \<open>registry h c ps\<close> holds when following the \<^verbatim>\<open>next\<close> fields from the
  pointer \<open>c\<close> visits the live instances \<open>ps\<close> in this order and then reaches the null pointer.
\<close>

primrec registry :: "(addr \<Rightarrow> RuntimeState option) \<Rightarrow> addr option \<Rightarrow> addr list \<Rightarrow> bool" where
  "registry h c [] = (c = None)"
| "registry h c (p # ps) =
     (c = Some p \<and> (case h p of None \<Rightarrow> False | Some r \<Rightarrow> registry h (RuntimeState.next r) ps))"

text \<open>\<open>created_by s t p\<close>: \<open>p\<close> is a live instance whose thread id is \<open>t\<close>.\<close>

definition created_by :: "state \<Rightarrow> thread \<Rightarrow> addr \<Rightarrow> bool" where
  "created_by s t p = (case heap s p of None \<Rightarrow> False | Some r \<Rightarrow> threadId r = t)"

text \<open>The effect of an interrupt routed to \<open>found\<close>: a call of its handler, if it has one.\<close>

definition delivered :: "addr option \<Rightarrow> state \<Rightarrow> state" where
  "delivered found s =
     (case found of
        None \<Rightarrow> s
      | Some p \<Rightarrow> (case heap s p of
           None \<Rightarrow> s
         | Some r \<Rightarrow> (case handler r of None \<Rightarrow> s | Some h \<Rightarrow> log (Call_handler h p) s)))"

text \<open>
  Thread 5 after it has suspended the instance at address 16, whose interrupt handler is 9:
  the thread is unbound, the instance is in the registry, the lock is free.
\<close>

definition suspended_state :: state where
  "suspended_state = \<lparr>initHeadNode = None, initTailNode = None, nodes = (\<lambda>a. None),
     runtimeState = (\<lambda>t. None), isMainThread = (\<lambda>t. 0)(5 := 1),
     aliveRuntimesCount = 1, runtimesLock = 0, runtimeStateList = Some 16,
     heap = (\<lambda>a. None)(16 \<mapsto> \<lparr>threadId = 5, handler = Some 9, memoryState = 43, next = None,
                          executionStatus = 0\<rparr>),
     trace = []\<rparr>"

text \<open>
  The chain of initializers as a list: \<open>chain nd c xs\<close> holds when following the \<^verbatim>\<open>next\<close>
  fields from the pointer \<open>c\<close> visits the nodes at the addresses \<open>map fst xs\<close>, which hold the
  initializers \<open>map snd xs\<close>, and then reaches the null pointer.
\<close>

primrec chain :: "(addr \<Rightarrow> InitNode option) \<Rightarrow> addr option \<Rightarrow> (addr \<times> nat) list \<Rightarrow> bool" where
  "chain nd c [] = (c = None)"
| "chain nd c (x # xs) =
     (c = Some (fst x) \<and>
      (case nd (fst x) of None \<Rightarrow> False | Some n \<Rightarrow> init n = snd x \<and> chain nd (InitNode.next n) xs))"

text \<open>Registering the nodes at the addresses \<open>ns\<close>, one call of \<^verbatim>\<open>AppendToInitializersTail\<close> each.\<close>

fun register :: "addr list \<Rightarrow> state \<Rightarrow> error + state" where
  "register [] s = Inr s"
| "register (n # ns) s = seq (AppendToInitializersTail (Some n) s) (register ns)"

text \<open>Two nodes at the addresses 32 and 48, with the initializers 7 and 8, not yet registered.\<close>

definition two_nodes :: state where
  "two_nodes = initial\<lparr>nodes := (\<lambda>a. None)(32 \<mapsto> \<lparr>init = 7, next = None\<rparr>, 48 \<mapsto> \<lparr>init = 8, next = None\<rparr>)\<rparr>"

text \<open>What the unlink loop leaves behind when it ends: nothing, one store to the list head, or one store to a \<^verbatim>\<open>next\<close> field.\<close>

definition unlink_post :: "state \<Rightarrow> error + state \<Rightarrow> bool" where
  "unlink_post s y = (case y of Inl e \<Rightarrow> True
     | Inr s' \<Rightarrow> s' = s \<or> (\<exists>v. s' = store_runtimeStateList v s)
                \<or> (\<exists>q v. store_next (Some q) v s = Inr s'))"

text \<open>
  A run of creations and destructions: \<^verbatim>\<open>initRuntime\<close> on thread \<open>t\<close>, where the allocator
  yields \<open>alloc\<close> and \<^verbatim>\<open>InitMemory\<close> yields \<open>mem\<close>, and \<^verbatim>\<open>deinitRuntime\<close> of an instance. Each
  call is taken as one step; a call that does not return ends the run.
\<close>

datatype lifecycle = Creation thread "addr option" nat | Destruction "addr option"

fun run :: "lifecycle list \<Rightarrow> state \<Rightarrow> error + state" where
  "run [] s = Inr s"
| "run (Creation t alloc mem # ops) s = seq (initRuntime t alloc mem s) (\<lambda>(result, s). run ops s)"
| "run (Destruction state # ops) s = seq (deinitRuntime state s) (run ops)"

text \<open>
  The number of runs of the phase \<open>tag\<close> to expect of a run that starts
  with the count \<open>c\<close>: \<^verbatim>\<open>INIT_THREAD_LOCAL_GLOBALS\<close> in every creation that gets its object,
  \<^verbatim>\<open>INIT_GLOBALS\<close> in those of them that bring the count from 0 to 1,
  \<^verbatim>\<open>DEINIT_THREAD_LOCAL_GLOBALS\<close> in every destruction, \<^verbatim>\<open>DEINIT_GLOBALS\<close> in those that bring
  the count from 1 to 0.
\<close>

fun expected_runs :: "32 word \<Rightarrow> 32 word \<Rightarrow> lifecycle list \<Rightarrow> nat" where
  "expected_runs tag c [] = 0"
| "expected_runs tag c (Creation t None mem # ops) = expected_runs tag c ops"
| "expected_runs tag c (Creation t (Some p) mem # ops) =
     (if tag = INIT_THREAD_LOCAL_GLOBALS \<or> (tag = INIT_GLOBALS \<and> c = 0) then 1 else 0)
     + expected_runs tag (c + 1) ops"
| "expected_runs tag c (Destruction state # ops) =
     (if tag = DEINIT_THREAD_LOCAL_GLOBALS \<or> (tag = DEINIT_GLOBALS \<and> c = 1) then 1 else 0)
     + expected_runs tag (c - 1) ops"

text \<open>
  The operations of the interface that create, bind, unbind or destroy an instance, the
  address an operation's allocation yields, and the instances whose status is \<^verbatim>\<open>DESTROYING\<close>.
\<close>

datatype operation =
    AttachOrCreate thread "addr option" nat
  | DetachIfAttached thread
  | CreateDetached thread "addr option" nat
  | Destroy "addr option"
  | Suspend thread nat
  | Resume thread "addr option"

fun exec :: "operation \<Rightarrow> state \<Rightarrow> error + state" where
  "exec (AttachOrCreate t alloc mem) s = Kotlin_initRuntimeIfNeeded t alloc mem s"
| "exec (DetachIfAttached t) s = Kotlin_deinitRuntimeIfNeeded t s"
| "exec (CreateDetached t alloc mem) s = seq (Kotlin_createRuntime t alloc mem s) (\<lambda>(result, s). Inr s)"
| "exec (Destroy state) s = Kotlin_destroyRuntime state s"
| "exec (Suspend t mem) s = seq (Kotlin_suspendRuntime t mem s) (\<lambda>(result, s). Inr s)"
| "exec (Resume t state) s = Kotlin_resumeRuntime t state s"

fun allocation :: "operation \<Rightarrow> addr option" where
  "allocation (AttachOrCreate t alloc mem) = alloc"
| "allocation (CreateDetached t alloc mem) = alloc"
| "allocation (DetachIfAttached t) = None"
| "allocation (Destroy state) = None"
| "allocation (Suspend t mem) = None"
| "allocation (Resume t state) = None"

definition destroying :: "state \<Rightarrow> addr \<Rightarrow> bool" where
  "destroying s p = (case heap s p of None \<Rightarrow> False | Some r \<Rightarrow> executionStatus r = DESTROYING)"

text \<open>An event other than a compare-and-swap, or a compare-and-swap that expects \<^verbatim>\<open>SUSPENDED\<close> or \<^verbatim>\<open>RUNNING\<close>.\<close>

definition expects_live :: "event \<Rightarrow> bool" where
  "expects_live e = (case e of Call_compareAndSwap q old new \<Rightarrow> old = SUSPENDED \<or> old = RUNNING | _ \<Rightarrow> True)"

text \<open>
  Thread 5 runs the instance at address 16 while the instance at address 32, of thread 6,
  is being destroyed.
\<close>

definition destroying_state :: state where
  "destroying_state = \<lparr>initHeadNode = None, initTailNode = None, nodes = (\<lambda>a. None),
     runtimeState = (\<lambda>t. None)(5 := Some 16), isMainThread = (\<lambda>t. 0)(5 := 1),
     aliveRuntimesCount = 1, runtimesLock = 0, runtimeStateList = Some 32,
     heap = (\<lambda>a. None)(16 \<mapsto> \<lparr>threadId = 5, handler = None, memoryState = 42, next = None,
                           executionStatus = 1\<rparr>,
                         32 \<mapsto> \<lparr>threadId = 6, handler = None, memoryState = 44, next = Some 16,
                           executionStatus = 2\<rparr>),
     trace = []\<rparr>"

text \<open>
  Book-keeping for interleaved runs. An atomic increment or decrement incurs the phases
  that the activity has to run for it; \<open>owed\<close> lists what an activity at a given line still has to
  do for the increments and decrements behind it (and the increment or decrement still
  before it); \<open>performed\<close> lists what an event does.
\<close>

datatype obligation = Run "32 word" | Increment | Decrement

fun owed :: "activity \<Rightarrow> obligation list" where
  "owed (InitRuntime l t alloc mem result firstRuntime) =
     (if (l \<in> {L99, L100} \<and> alloc \<noteq> None) \<or> (l = L101 \<and> result \<noteq> None) \<or> l \<in> {L102, L103, L104, L105}
      then [Increment] else [])
     @ (if (l \<in> {L106, L107, L108, L109, L111} \<and> firstRuntime) \<or> l \<in> {L112, L113, L114, L115}
        then [Run INIT_GLOBALS] else [])
     @ (if l \<in> {L106, L107, L108, L109, L111, L112, L113, L114, L115, L117}
        then [Run INIT_THREAD_LOCAL_GLOBALS] else [])"
| "owed (DeinitRuntime l state lastRuntime) =
     (if l = L122 then [Decrement] else [])
     @ (if l = L123 then [Run DEINIT_THREAD_LOCAL_GLOBALS] else [])
     @ (if (l \<in> {L123, L124} \<and> lastRuntime) \<or> l = L125 then [Run DEINIT_GLOBALS] else [])"
| "owed (Returned result) = []"

fun performed :: "event \<Rightarrow> obligation list" where
  "performed (Call_InitOrDeinitGlobalVariables tag) = [Run tag]"
| "performed (Call_atomicAdd d v) = (if d = 1 then [Increment] else if d = - 1 then [Decrement] else [])"
| "performed e = []"

fun incurred :: "event \<Rightarrow> obligation list" where
  "incurred (Call_atomicAdd d v) =
     (if d = 1 then (if v = 1 then [Run INIT_GLOBALS] else []) @ [Run INIT_THREAD_LOCAL_GLOBALS]
      else if d = - 1 then Run DEINIT_THREAD_LOCAL_GLOBALS # (if v = 0 then [Run DEINIT_GLOBALS] else [])
      else [])"
| "incurred e = []"

text \<open>
  \<open>balanced es as as'\<close>: with the events \<open>es\<close> the activities \<open>as\<close> have become \<open>as'\<close>, and
  every obligation performed or still owed is one that was incurred or owed before.
\<close>

definition balanced :: "event list \<Rightarrow> activity list \<Rightarrow> activity list \<Rightarrow> bool" where
  "balanced es as as' = (\<forall>ob.
      count_list (concat (map performed es)) ob + count_list (concat (map owed as')) ob
    = count_list (concat (map incurred es)) ob + count_list (concat (map owed as)) ob)"

text \<open>
  The events added between two states, and what one step has to respect: it only adds
  events, and what it performs and still owes balances what it incurs and owed.
\<close>

definition news :: "state \<Rightarrow> state \<Rightarrow> event list" where
  "news s s' = drop (length (trace s)) (trace s')"

definition step_ok :: "activity \<Rightarrow> state \<Rightarrow> activity \<Rightarrow> state \<Rightarrow> bool" where
  "step_ok a s a' s' = (trace s' = trace s @ news s s' \<and> balanced (news s s') [a] [a'])"

text \<open>
  The activity of a call at its first line, the calls that create an instance (their
  allocation succeeds), the calls that destroy one, and the activities that have returned.
\<close>

fun start :: "lifecycle \<Rightarrow> activity" where
  "start (Creation t alloc mem) = InitRuntime L99 t alloc mem None False"
| "start (Destruction state) = DeinitRuntime L122 state False"

fun creates :: "lifecycle \<Rightarrow> bool" where
  "creates (Creation t alloc mem) = (alloc \<noteq> None)"
| "creates (Destruction state) = False"

fun destroys :: "lifecycle \<Rightarrow> bool" where
  "destroys (Creation t alloc mem) = False"
| "destroys (Destruction state) = True"

fun returned :: "activity \<Rightarrow> bool" where
  "returned (Returned result) = True"
| "returned a = False"

text \<open>The events that activity \<open>k\<close> makes in an interleaved run.\<close>

fun history :: "nat list \<Rightarrow> activity list \<Rightarrow> state \<Rightarrow> nat \<Rightarrow> event list" where
  "history [] as s k = []"
| "history (i # sched) as s k =
     (if i < length as
      then (case step (as ! i) s of
              Inl e \<Rightarrow> []
            | Inr (a, s') \<Rightarrow> (if i = k then news s s' else []) @ history sched (as[i := a]) s' k)
      else history sched as s k)"

text \<open>
  Two runs: an instance created, destroyed, created again and destroyed again, one call
  after the other; and two threads that create their instances at the same time, step by
  step in turn, and then destroy them in the same way.
\<close>

definition repeated_ops :: "lifecycle list" where
  "repeated_ops = [Creation 5 (Some 16) 42, Destruction (Some 16), Creation 5 (Some 16) 42, Destruction (Some 16)]"

definition one_by_one :: "nat list" where
  "one_by_one = replicate 18 0 @ replicate 9 1 @ replicate 18 2 @ replicate 9 3"

definition two_threads_ops :: "lifecycle list" where
  "two_threads_ops = [Creation 5 (Some 16) 42, Creation 6 (Some 32) 43, Destruction (Some 16), Destruction (Some 32)]"

definition overlapping :: "nat list" where
  "overlapping = concat (replicate 20 [0, 1]) @ concat (replicate 11 [2, 3])"

section \<open>Properties\<close>

lemmas status_defs = SUSPENDED_def RUNNING_def DESTROYING_def
lemmas phase_defs = INIT_GLOBALS_def INIT_THREAD_LOCAL_GLOBALS_def
  DEINIT_THREAD_LOCAL_GLOBALS_def DEINIT_GLOBALS_def
lemmas store_defs = store_threadId_def store_handler_def store_memoryState_def store_next_def
  load_memoryState_def store_runtimeStateList_def store_runtimeState_def store_isMainThread_def

subsection \<open>The loop over the initializers\<close>

lemma walk_post_step:
  "walk_post tag (log (Call_init f tag) s) y \<Longrightarrow> walk_post tag s y"
proof (cases y)
  case (Inr s')
  assume "walk_post tag (log (Call_init f tag) s) y"
  with Inr obtain fs where "s' = s\<lparr>trace := trace s @ map (\<lambda>f. Call_init f tag) (f # fs)\<rparr>"
    by (auto simp: walk_post_def log_def)
  with Inr show ?thesis unfolding walk_post_def by (simp only: sum.case) blast
qed (simp add: walk_post_def)

lemma walk_post_inl: "walk_post tag s (Inl e)"
  by (simp add: walk_post_def)

lemma walk_post_refl: "walk_post tag s (Inr s)"
proof -
  have "s = s\<lparr>trace := trace s @ map (\<lambda>f. Call_init f tag) []\<rparr>" by simp
  then show ?thesis unfolding walk_post_def by (simp only: sum.case) blast
qed

lemma walk_initializers_post:
  "walk_initializers tag c s = Some y \<Longrightarrow> walk_post tag s y"
proof (induction tag c s y rule: walk_initializers.raw_induct[rotated, consumes 1])
  case (1 walk tag c s y)
  from 1(2) show ?case
    by (auto split: option.splits intro: walk_post_refl walk_post_step[OF 1(1)] simp: walk_post_inl)
qed

lemma InitOrDeinitGlobalVariables_returns:
  assumes "InitOrDeinitGlobalVariables tag s = Inr s'"
  shows "\<exists>fs. s' = s\<lparr>trace := trace s @ phase_events tag fs\<rparr>"
proof -
  from assms have "walk_initializers tag (initHeadNode s) (log (Call_InitOrDeinitGlobalVariables tag) s) = Some (Inr s')"
    by (simp add: InitOrDeinitGlobalVariables_def split: option.splits)
  from walk_initializers_post[OF this] show ?thesis
    by (auto simp: log_def phase_events_def walk_post_def)
qed

subsection \<open>Creation\<close>

lemmas initRuntime_unfold = initRuntime_def konanConstructInstance_def seq_def log_def store_defs
  atomicAdd_def Kotlin_lockRuntimes_def Kotlin_unlockRuntimes_def zeroed_def Let_def
  create_events_def first_events_def created_def

lemma initRuntime_null:
  "initRuntime t None mem s =
     Inr (None, s\<lparr>trace := trace s @ [Call_SetKonanTerminateHandler, Call_konanConstructInstance]\<rparr>)"
  by (simp add: initRuntime_def konanConstructInstance_def log_def)

lemma initRuntime_locked:
  "runtimesLock s \<noteq> 0 \<Longrightarrow> initRuntime t (Some p) mem s = Inl NoReturn"
  by (simp add: initRuntime_unfold)

lemma initRuntime_first:
  "runtimesLock s = 0 \<Longrightarrow> aliveRuntimesCount s + 1 = 1 \<Longrightarrow>
   initRuntime t (Some p) mem s =
     seq (InitOrDeinitGlobalVariables INIT_GLOBALS
            ((created t p mem s)\<lparr>trace := trace s @ create_events t p 1 @ first_events t\<rparr>))
       (\<lambda>s. seq (InitOrDeinitGlobalVariables INIT_THREAD_LOCAL_GLOBALS s) (\<lambda>s. Inr (Some p, s)))"
  by (simp add: initRuntime_unfold)

lemma initRuntime_later:
  "runtimesLock s = 0 \<Longrightarrow> aliveRuntimesCount s + 1 \<noteq> 1 \<Longrightarrow>
   initRuntime t (Some p) mem s =
     seq (InitOrDeinitGlobalVariables INIT_THREAD_LOCAL_GLOBALS
            ((created t p mem s)\<lparr>trace := trace s @ create_events t p (aliveRuntimesCount s + 1)\<rparr>))
       (\<lambda>s. Inr (Some p, s))"
  by (simp add: initRuntime_unfold)

lemma initRuntime_returns:
  assumes "initRuntime t (Some p) mem s = Inr (result, s')"
  shows "result = Some p \<and> runtimesLock s = 0 \<and> (\<exists>fs gs. s' = (created t p mem s)\<lparr>trace := trace s
            @ create_events t p (aliveRuntimesCount s + 1)
            @ (if aliveRuntimesCount s + 1 = 1 then first_events t @ phase_events INIT_GLOBALS fs else [])
            @ phase_events INIT_THREAD_LOCAL_GLOBALS gs\<rparr>)"
proof -
  have lock: "runtimesLock s = 0"
    using assms initRuntime_locked[of s t p mem] by auto
  show ?thesis
  proof (cases "aliveRuntimesCount s + 1 = 1")
    case True
    with assms lock obtain s7 where
      a: "InitOrDeinitGlobalVariables INIT_GLOBALS
            ((created t p mem s)\<lparr>trace := trace s @ create_events t p 1 @ first_events t\<rparr>) = Inr s7"
      and b: "InitOrDeinitGlobalVariables INIT_THREAD_LOCAL_GLOBALS s7 = Inr s'" and r: "result = Some p"
      by (auto simp: initRuntime_first seq_def split: sum.splits)
    from InitOrDeinitGlobalVariables_returns[OF a] InitOrDeinitGlobalVariables_returns[OF b]
    obtain fs gs where "s' = (created t p mem s)\<lparr>trace := trace s @ create_events t p 1 @ first_events t
         @ phase_events INIT_GLOBALS fs @ phase_events INIT_THREAD_LOCAL_GLOBALS gs\<rparr>"
      by auto
    with True have "s' = (created t p mem s)\<lparr>trace := trace s
            @ create_events t p (aliveRuntimesCount s + 1)
            @ (if aliveRuntimesCount s + 1 = 1 then first_events t @ phase_events INIT_GLOBALS fs else [])
            @ phase_events INIT_THREAD_LOCAL_GLOBALS gs\<rparr>"
      by simp
    with r lock show ?thesis by blast
  next
    case False
    with assms lock have b: "InitOrDeinitGlobalVariables INIT_THREAD_LOCAL_GLOBALS
            ((created t p mem s)\<lparr>trace := trace s @ create_events t p (aliveRuntimesCount s + 1)\<rparr>) = Inr s'"
      and r: "result = Some p"
      by (auto simp: initRuntime_later seq_def split: sum.splits)
    from InitOrDeinitGlobalVariables_returns[OF b]
    obtain gs where "s' = (created t p mem s)\<lparr>trace := trace s @ create_events t p (aliveRuntimesCount s + 1)
         @ phase_events INIT_THREAD_LOCAL_GLOBALS gs\<rparr>"
      by auto
    with False have "s' = (created t p mem s)\<lparr>trace := trace s
            @ create_events t p (aliveRuntimesCount s + 1)
            @ (if aliveRuntimesCount s + 1 = 1 then first_events t @ phase_events INIT_GLOBALS [] else [])
            @ phase_events INIT_THREAD_LOCAL_GLOBALS gs\<rparr>"
      by simp
    with r lock show ?thesis by blast
  qed
qed

lemma initRuntime_initial:
  "initRuntime 5 (Some 16) 42 initial =
     Inr (Some 16, (created 5 16 42 initial)\<lparr>trace := create_events 5 16 1 @ first_events 5
        @ phase_events INIT_GLOBALS [] @ phase_events INIT_THREAD_LOCAL_GLOBALS []\<rparr>)"
  by (simp add: initRuntime_first initial_def InitOrDeinitGlobalVariables_def
      walk_initializers.simps seq_def log_def created_def phase_events_def)

text \<open>
  C3, as amended. A creation that returns has made its calls and stores in this order: the
  terminate handler, the allocation, the thread id, the handler field, the memory
  subsystem's init entry and the memory handle, the atomic increment (returning \<open>v\<close>), then
  the insertion into the registry between taking and releasing the lock; after that,
  if \<open>v = 1\<close>, the interrupt handler is installed, the thread is marked main, the console is
  set up and \<^verbatim>\<open>INIT_GLOBALS\<close> runs; and last \<^verbatim>\<open>INIT_THREAD_LOCAL_GLOBALS\<close> runs. The
  insertion into the registry comes before the initializer phases, not after them.
\<close>

theorem initRuntime_order:
  assumes "initRuntime t (Some p) mem s = Inr (result, s')"
  shows "\<exists>fs gs v. v = aliveRuntimesCount s + 1 \<and> trace s' = trace s
           @ [Call_SetKonanTerminateHandler, Call_konanConstructInstance, Store (F_threadId p),
              Store (F_handler p), Call_InitMemory, Store (F_memoryState p), Call_atomicAdd 1 v,
              Call_spinLock, Store (F_next p), Store G_runtimeStateList, Call_spinUnlock]
           @ (if v = 1
              then [Call_setThreadInterruptHandler, Store (TL_isMainThread t), Call_consoleInit]
                   @ phase_events INIT_GLOBALS fs
              else [])
           @ phase_events INIT_THREAD_LOCAL_GLOBALS gs"
proof -
  from initRuntime_returns[OF assms] obtain fs gs where
    "s' = (created t p mem s)\<lparr>trace := trace s
            @ create_events t p (aliveRuntimesCount s + 1)
            @ (if aliveRuntimesCount s + 1 = 1 then first_events t @ phase_events INIT_GLOBALS fs else [])
            @ phase_events INIT_THREAD_LOCAL_GLOBALS gs\<rparr>"
    by blast
  then have "trace s' = trace s
           @ [Call_SetKonanTerminateHandler, Call_konanConstructInstance, Store (F_threadId p),
              Store (F_handler p), Call_InitMemory, Store (F_memoryState p),
              Call_atomicAdd 1 (aliveRuntimesCount s + 1),
              Call_spinLock, Store (F_next p), Store G_runtimeStateList, Call_spinUnlock]
           @ (if aliveRuntimesCount s + 1 = 1
              then [Call_setThreadInterruptHandler, Store (TL_isMainThread t), Call_consoleInit]
                   @ phase_events INIT_GLOBALS fs
              else [])
           @ phase_events INIT_THREAD_LOCAL_GLOBALS gs"
    by (simp add: create_events_def first_events_def)
  then show ?thesis by blast
qed

theorem initRuntime_order_witness:
  "\<exists>fs gs. trace (snd (Some (16::nat), (created 5 16 42 initial)\<lparr>trace := create_events 5 16 1 @ first_events 5
        @ phase_events INIT_GLOBALS [] @ phase_events INIT_THREAD_LOCAL_GLOBALS []\<rparr>))
     = [Call_SetKonanTerminateHandler, Call_konanConstructInstance, Store (F_threadId 16),
        Store (F_handler 16), Call_InitMemory, Store (F_memoryState 16), Call_atomicAdd 1 1,
        Call_spinLock, Store (F_next 16), Store G_runtimeStateList, Call_spinUnlock,
        Call_setThreadInterruptHandler, Store (TL_isMainThread 5), Call_consoleInit]
        @ phase_events INIT_GLOBALS fs @ phase_events INIT_THREAD_LOCAL_GLOBALS gs"
  using initRuntime_order [OF initRuntime_initial]
  by (simp add: initial_def)

text \<open>
  C3 as stated fails: in the creation of the first runtime at program start the store to
  \<^verbatim>\<open>runtimeStateList\<close> is not later than the run of \<^verbatim>\<open>INIT_THREAD_LOCAL_GLOBALS\<close>; that run is
  later than the store.
\<close>

theorem initRuntime_order_counterexample:
  "map_sum id (\<lambda>(result, s).
       (occurs_after (Call_InitOrDeinitGlobalVariables INIT_THREAD_LOCAL_GLOBALS) (Store G_runtimeStateList) (trace s),
        occurs_after (Store G_runtimeStateList) (Call_InitOrDeinitGlobalVariables INIT_THREAD_LOCAL_GLOBALS) (trace s),
        occurs_after (Store G_runtimeStateList) (Call_InitOrDeinitGlobalVariables INIT_GLOBALS) (trace s)))
     (initRuntime 5 (Some 16) 42 initial)
   = Inr (False, True, True)"
  by (simp add: initRuntime_initial occurs_after_def create_events_def first_events_def
      phase_events_def phase_defs)

subsection \<open>Attaching twice\<close>

text \<open>
  C4 as stated fails: thread 5 is bound to the instance at address 16, and another
  \<^verbatim>\<open>Kotlin_initRuntimeIfNeeded\<close> on it returns, with the state as it was; it is not fatal.
\<close>

theorem initRuntimeIfNeeded_bound_counterexample:
  "runtimeState attached_state 5 = Some 16
   \<and> Kotlin_initRuntimeIfNeeded 5 (Some 2) 43 attached_state = Inr attached_state"
  by (simp add: Kotlin_initRuntimeIfNeeded_def attached_state_def)

text \<open>
  C4, as amended. \<^verbatim>\<open>Kotlin_initRuntimeIfNeeded\<close> on a thread that has a bound instance
  returns and changes nothing: no instance is created, no status changes, no check fails.
\<close>

theorem initRuntimeIfNeeded_bound_noop:
  "runtimeState s t \<noteq> None \<Longrightarrow> Kotlin_initRuntimeIfNeeded t alloc mem s = Inr s"
  by (auto simp: Kotlin_initRuntimeIfNeeded_def)

theorem initRuntimeIfNeeded_bound_noop_witness:
  "runtimeState attached_state 5 \<noteq> None
   \<and> Kotlin_initRuntimeIfNeeded 5 None 0 attached_state = Inr attached_state"
  using initRuntimeIfNeeded_bound_noop [of attached_state 5 None 0]
  by (simp add: attached_state_def)

subsection \<open>Suspend and resume\<close>

text \<open>
  C5. On a thread whose bound instance \<open>p\<close> is \<^verbatim>\<open>RUNNING\<close>, \<^verbatim>\<open>Kotlin_suspendRuntime\<close> returns
  \<open>p\<close>, and \<^verbatim>\<open>Kotlin_resumeRuntime\<close> of \<open>p\<close> right after it returns too; then the thread is bound
  to \<open>p\<close> again and \<open>p\<close> is \<^verbatim>\<open>RUNNING\<close>. Of its fields only the memory handle may differ: it
  is the one \<^verbatim>\<open>SuspendMemory\<close> returned.
\<close>

theorem suspend_resume_roundtrip:
  assumes "runtimeState s t = Some p" and "heap s p = Some r" and "executionStatus r = RUNNING"
  shows "\<exists>s1 s2. Kotlin_suspendRuntime t mem s = Inr (Some p, s1)
           \<and> Kotlin_resumeRuntime t (Some p) s1 = Inr s2
           \<and> runtimeState s2 t = Some p
           \<and> heap s2 p = Some (r\<lparr>memoryState := mem\<rparr>)
           \<and> executionStatus (r\<lparr>memoryState := mem\<rparr>) = RUNNING"
  using assms
  by (simp add: Kotlin_suspendRuntime_def Kotlin_resumeRuntime_def updateStatusIf_def
      RuntimeCheck_def seq_def log_def store_defs status_defs)

theorem suspend_resume_roundtrip_witness:
  "runtimeState attached_state 5 = Some 16
   \<and> (\<exists>s1 s2. Kotlin_suspendRuntime 5 43 attached_state = Inr (Some 16, s1)
           \<and> Kotlin_resumeRuntime 5 (Some 16) s1 = Inr s2
           \<and> runtimeState s2 5 = Some 16
           \<and> heap s2 16 = Some \<lparr>threadId = 5, handler = None, memoryState = 43, next = None,
                                 executionStatus = RUNNING\<rparr>)"
  using suspend_resume_roundtrip [of attached_state 5 16
      "\<lparr>threadId = 5, handler = None, memoryState = 42, next = None, executionStatus = 1\<rparr>" 43]
  by (simp add: attached_state_def RUNNING_def)

subsection \<open>Allocation failure\<close>

text \<open>
  C7. When the allocation yields a null pointer, \<^verbatim>\<open>Kotlin_createRuntime\<close> returns a null
  pointer; the count of alive runtimes, the registry, the instances, the chain of
  initializers, the bindings and the lock are as before. The call has installed the
  terminate handler and called the allocator, nothing else.
\<close>

theorem createRuntime_allocation_failure:
  "\<exists>s'. Kotlin_createRuntime t None mem s = Inr (None, s')
     \<and> aliveRuntimesCount s' = aliveRuntimesCount s
     \<and> runtimeStateList s' = runtimeStateList s \<and> heap s' = heap s
     \<and> initHeadNode s' = initHeadNode s \<and> initTailNode s' = initTailNode s \<and> nodes s' = nodes s
     \<and> runtimeState s' = runtimeState s \<and> isMainThread s' = isMainThread s
     \<and> runtimesLock s' = runtimesLock s
     \<and> trace s' = trace s @ [Call_SetKonanTerminateHandler, Call_konanConstructInstance]"
  by (simp add: Kotlin_createRuntime_def initRuntime_null)

subsection \<open>The status of a new instance\<close>

text \<open>
  C9. When \<^verbatim>\<open>Kotlin_createRuntime\<close> returns a new instance, its status is \<^verbatim>\<open>SUSPENDED\<close>. The
  creation makes no compare-and-swap and no store to the status: the value is the one of
  the zero-valued object, and \<^verbatim>\<open>SUSPENDED\<close> is 0.
\<close>

theorem created_instance_suspended:
  assumes "Kotlin_createRuntime t (Some p) mem s = Inr (result, s')"
  shows "result = Some p
     \<and> (\<exists>r. heap s' p = Some r \<and> executionStatus r = SUSPENDED)
     \<and> executionStatus zeroed = SUSPENDED"
proof -
  from assms have "initRuntime t (Some p) mem s = Inr (result, s')"
    by (simp add: Kotlin_createRuntime_def)
  from initRuntime_returns[OF this] show ?thesis
    by (auto simp: created_def SUSPENDED_def zeroed_def)
qed

theorem created_instance_suspended_witness:
  "\<exists>s'. Kotlin_createRuntime 5 (Some 16) 42 initial = Inr (Some 16, s')
     \<and> (\<exists>r. heap s' 16 = Some r \<and> executionStatus r = SUSPENDED)"
  using created_instance_suspended [of 5 16 42 initial "Some 16"
      "(created 5 16 42 initial)\<lparr>trace := create_events 5 16 1 @ first_events 5
        @ phase_events INIT_GLOBALS [] @ phase_events INIT_THREAD_LOCAL_GLOBALS []\<rparr>"]
  by (simp add: Kotlin_createRuntime_def initRuntime_initial)

subsection \<open>The interrupt handler\<close>

lemma search_thread_registry:
  "registry h c ps \<Longrightarrow>
   search_thread h t c = Some (Inr (find (\<lambda>p. case h p of None \<Rightarrow> False | Some r \<Rightarrow> threadId r = t) ps))"
proof (induction ps arbitrary: c)
  case Nil
  then show ?case by (simp add: search_thread.simps)
next
  case (Cons p ps)
  then obtain r where c: "c = Some p" and r: "h p = Some r" and rest: "registry h (RuntimeState.next r) ps"
    by (auto split: option.splits)
  show ?case
  proof (cases "threadId r = t")
    case True
    with c r show ?thesis by (subst search_thread.simps) simp
  next
    case False
    with c r Cons.IH[OF rest] show ?thesis by (subst search_thread.simps) simp
  qed
qed

text \<open>
  C2 as stated fails: thread 5 is unbound, the registry is not empty and holds an instance
  created by thread 5 whose handler is set, and the interrupt calls no handler and changes
  nothing, because the lock word is 0.
\<close>

theorem interrupt_unlocked_counterexample:
  "runtimeState suspended_state 5 = None
   \<and> runtimeStateList suspended_state = Some 16
   \<and> map_option threadId (heap suspended_state 16) = Some 5
   \<and> map_option handler (heap suspended_state 16) = Some (Some 9)
   \<and> threadInterruptHandler 5 0 suspended_state = Inr suspended_state"
  by (simp add: threadInterruptHandler_def suspended_state_def seq_def)

text \<open>
  C2, as amended. On a thread whose binding is empty the interrupt handler searches the
  registry if and only if the lock word is not zero, that is, while some thread holds the
  lock; it does not take the lock. The search takes the first instance whose thread id
  is the one of the interrupted thread. The handler of the instance found is called
  exactly when an instance was found and its handler is set; otherwise the interrupt has
  no effect.
\<close>

theorem interrupt_unbound:
  assumes "runtimeState s t = None" and "registry (heap s) (runtimeStateList s) ps"
  shows "threadInterruptHandler t ignore s
           = Inr (delivered (if runtimesLock s \<noteq> 0 then find (created_by s t) ps else None) s)"
proof (cases "runtimesLock s = 0")
  case True
  with assms(1) show ?thesis
    by (simp add: threadInterruptHandler_def seq_def delivered_def)
next
  case False
  have "created_by s t = (\<lambda>p. case heap s p of None \<Rightarrow> False | Some r \<Rightarrow> threadId r = t)"
    by (rule ext) (simp add: created_by_def)
  with search_thread_registry[OF assms(2), of t]
  have "search_thread (heap s) t (runtimeStateList s) = Some (Inr (find (created_by s t) ps))"
    by simp
  with False assms(1) have run: "threadInterruptHandler t ignore s =
      (case find (created_by s t) ps of
         None \<Rightarrow> Inr s
       | Some p \<Rightarrow> (case heap s p of
            None \<Rightarrow> Inl InvalidPointer
          | Some r \<Rightarrow> (case handler r of None \<Rightarrow> Inr s | Some h \<Rightarrow> Inr (log (Call_handler h p) s))))"
    by (simp add: threadInterruptHandler_def seq_def)
  show ?thesis
  proof (cases "find (created_by s t) ps")
    case None
    with run False show ?thesis by (simp add: delivered_def)
  next
    case (Some p)
    then have "created_by s t p" by (auto simp: find_Some_iff)
    then obtain r where "heap s p = Some r" by (auto simp: created_by_def split: option.splits)
    with run False Some show ?thesis by (simp add: delivered_def split: option.splits)
  qed
qed

theorem interrupt_unbound_witness:
  "runtimeState (suspended_state\<lparr>runtimesLock := 1\<rparr>) 5 = None
   \<and> registry (heap (suspended_state\<lparr>runtimesLock := 1\<rparr>)) (runtimeStateList (suspended_state\<lparr>runtimesLock := 1\<rparr>)) [16]
   \<and> threadInterruptHandler 5 0 (suspended_state\<lparr>runtimesLock := 1\<rparr>)
       = Inr (suspended_state\<lparr>runtimesLock := 1, trace := [Call_handler 9 16]\<rparr>)"
proof -
  have a: "runtimeState (suspended_state\<lparr>runtimesLock := 1\<rparr>) 5 = None"
    by (simp add: suspended_state_def)
  have b: "registry (heap (suspended_state\<lparr>runtimesLock := 1\<rparr>)) (runtimeStateList (suspended_state\<lparr>runtimesLock := 1\<rparr>)) [16]"
    by (simp add: suspended_state_def)
  from interrupt_unbound [OF a b, of 0] a b show ?thesis
    by (simp add: suspended_state_def delivered_def created_by_def log_def)
qed

text \<open>
  C10. A call of the interrupt handler that returns leaves every variable of the file and
  every field of every instance as it was: the chain of initializers, the bindings of all
  threads, the main-thread marks, the count, the lock, the registry and the instances. The
  trace is unchanged, or longer by one call: that of the handler stored in a live instance,
  with this instance as its argument.
\<close>

theorem interrupt_frame:
  assumes "threadInterruptHandler t ignore s = Inr s'"
  shows "initHeadNode s' = initHeadNode s \<and> initTailNode s' = initTailNode s \<and> nodes s' = nodes s
     \<and> runtimeState s' = runtimeState s \<and> isMainThread s' = isMainThread s
     \<and> aliveRuntimesCount s' = aliveRuntimesCount s \<and> runtimesLock s' = runtimesLock s
     \<and> runtimeStateList s' = runtimeStateList s \<and> heap s' = heap s
     \<and> (trace s' = trace s
         \<or> (\<exists>p r h. heap s p = Some r \<and> handler r = Some h \<and> trace s' = trace s @ [Call_handler h p]))"
proof -
  from assms have "s' = s \<or> (\<exists>p r h. heap s p = Some r \<and> handler r = Some h \<and> s' = log (Call_handler h p) s)"
    by (auto simp: threadInterruptHandler_def seq_def split: sum.splits option.splits)
  then show ?thesis
    by (auto simp: log_def)
qed

theorem interrupt_frame_witness:
  "threadInterruptHandler 5 0 (suspended_state\<lparr>runtimeState := (\<lambda>t. None)(5 := Some 16)\<rparr>)
     = Inr (suspended_state\<lparr>runtimeState := (\<lambda>t. None)(5 := Some 16), trace := [Call_handler 9 16]\<rparr>)
   \<and> heap (suspended_state\<lparr>runtimeState := (\<lambda>t. None)(5 := Some 16), trace := [Call_handler 9 16]\<rparr>)
       = heap (suspended_state\<lparr>runtimeState := (\<lambda>t. None)(5 := Some 16)\<rparr>)"
proof -
  have a: "threadInterruptHandler 5 0 (suspended_state\<lparr>runtimeState := (\<lambda>t. None)(5 := Some 16)\<rparr>)
     = Inr (suspended_state\<lparr>runtimeState := (\<lambda>t. None)(5 := Some 16), trace := [Call_handler 9 16]\<rparr>)"
    by (simp add: threadInterruptHandler_def suspended_state_def seq_def log_def)
  from interrupt_frame [OF a] a show ?thesis by simp
qed

subsection \<open>Registration and the order of the initializers\<close>

lemma walk_initializers_chain:
  "chain (nodes s) c xs \<Longrightarrow>
   walk_initializers tag c s = Some (Inr (s\<lparr>trace := trace s @ map (\<lambda>x. Call_init (snd x) tag) xs\<rparr>))"
proof (induction xs arbitrary: c s)
  case Nil
  then show ?case by (simp add: walk_initializers.simps)
next
  case (Cons x xs)
  then obtain n where c: "c = Some (fst x)" and n: "nodes s (fst x) = Some n" "init n = snd x"
    and rest: "chain (nodes s) (InitNode.next n) xs"
    by (auto split: option.splits)
  from rest have "chain (nodes (log (Call_init (snd x) tag) s)) (InitNode.next n) xs"
    by (simp add: log_def)
  from Cons.IH[OF this]
  have "walk_initializers tag (InitNode.next n) (log (Call_init (snd x) tag) s)
          = Some (Inr (s\<lparr>trace := trace s @ map (\<lambda>x. Call_init (snd x) tag) (x # xs)\<rparr>))"
    by (simp add: log_def)
  with c n show ?case by (subst walk_initializers.simps) simp
qed

lemma chain_live: "chain nd c xs \<Longrightarrow> a \<in> fst ` set xs \<Longrightarrow> nd a \<noteq> None"
  by (induction xs arbitrary: c) (auto split: option.splits)

lemma chain_snoc:
  assumes "chain nd c xs" and "xs \<noteq> []" and "distinct (map fst xs)" and "a \<notin> fst ` set xs"
    and "nd (fst (last xs)) = Some n" and "nd a = Some \<lparr>init = f, next = None\<rparr>"
  shows "chain (nd(fst (last xs) \<mapsto> n\<lparr>InitNode.next := Some a\<rparr>)) c (xs @ [(a, f)])"
  using assms
proof (induction xs arbitrary: c)
  case Nil
  then show ?case by simp
next
  case (Cons x xs)
  then obtain m where c: "c = Some (fst x)" and m: "nd (fst x) = Some m" "init m = snd x"
    and rest: "chain nd (InitNode.next m) xs"
    by (auto split: option.splits)
  show ?case
  proof (cases "xs = []")
    case True
    with Cons.prems c m rest show ?thesis by auto
  next
    case False
    from False have "last xs \<in> set xs" by simp
    then have "fst (last xs) \<in> fst ` set xs" by (rule imageI)
    moreover from Cons.prems(3) have "fst x \<notin> fst ` set xs" by simp
    ultimately have "fst (last xs) \<noteq> fst x" by metis
    moreover from False Cons.prems rest
    have "chain (nd(fst (last xs) \<mapsto> n\<lparr>InitNode.next := Some a\<rparr>)) (InitNode.next m) (xs @ [(a, f)])"
      by (intro Cons.IH) auto
    ultimately have neq: "fst (last xs) \<noteq> fst x"
      and tl: "chain (nd(fst (last xs) \<mapsto> n\<lparr>InitNode.next := Some a\<rparr>)) (InitNode.next m) (xs @ [(a, f)])"
      by blast+
    from neq m have "(nd(fst (last xs) \<mapsto> n\<lparr>InitNode.next := Some a\<rparr>)) (fst x) = Some m"
      by simp
    with tl c m(2) have "chain (nd(fst (last xs) \<mapsto> n\<lparr>InitNode.next := Some a\<rparr>)) c (x # (xs @ [(a, f)]))"
      by (simp only: chain.simps option.case simp_thms)
    moreover from False have "last (x # xs) = last xs" by simp
    ultimately show ?thesis by (simp only: append_Cons)
  qed
qed

lemma AppendToInitializersTail_first:
  "initHeadNode s = None \<Longrightarrow>
   AppendToInitializersTail (Some a) s
     = Inr (s\<lparr>initHeadNode := Some a, initTailNode := Some a,
              trace := trace s @ [Store G_initHeadNode, Store G_initTailNode]\<rparr>)"
  by (simp add: AppendToInitializersTail_def seq_def log_def)

lemma AppendToInitializersTail_next:
  "initHeadNode s \<noteq> None \<Longrightarrow> initTailNode s = Some l \<Longrightarrow> nodes s l = Some n \<Longrightarrow>
   AppendToInitializersTail (Some a) s
     = Inr (s\<lparr>nodes := (nodes s)(l \<mapsto> n\<lparr>InitNode.next := Some a\<rparr>), initTailNode := Some a,
              trace := trace s @ [Store (N_next l), Store G_initTailNode]\<rparr>)"
  by (auto simp: AppendToInitializersTail_def seq_def log_def)

lemma register_chain:
  assumes "chain (nodes s) (initHeadNode s) xs"
    and "xs \<noteq> [] \<longrightarrow> initTailNode s = Some (fst (last xs))"
    and "distinct (map fst (xs @ ys))"
    and "\<forall>y \<in> set ys. nodes s (fst y) = Some \<lparr>init = snd y, next = None\<rparr>"
  shows "\<exists>s1. register (map fst ys) s = Inr s1 \<and> chain (nodes s1) (initHeadNode s1) (xs @ ys)"
  using assms
proof (induction ys arbitrary: s xs)
  case Nil
  then show ?case by simp
next
  case (Cons y ys)
  from Cons.prems(4) have y: "nodes s (fst y) = Some \<lparr>init = snd y, next = None\<rparr>" by simp
  have "\<exists>s2. AppendToInitializersTail (Some (fst y)) s = Inr s2
          \<and> chain (nodes s2) (initHeadNode s2) (xs @ [y])
          \<and> initTailNode s2 = Some (fst y)
          \<and> (\<forall>z \<in> set ys. nodes s2 (fst z) = nodes s (fst z))"
  proof (cases "xs = []")
    case True
    with Cons.prems(1) have "initHeadNode s = None" by simp
    from AppendToInitializersTail_first[OF this] True y show ?thesis by simp
  next
    case False
    with Cons.prems(1) have head: "initHeadNode s \<noteq> None" by (cases xs) auto
    from False Cons.prems(2) have tail: "initTailNode s = Some (fst (last xs))" by simp
    from False have "fst (last xs) \<in> fst ` set xs" by simp
    with chain_live[OF Cons.prems(1)] obtain n where n: "nodes s (fst (last xs)) = Some n" by blast
    have "chain ((nodes s)(fst (last xs) \<mapsto> n\<lparr>InitNode.next := Some (fst y)\<rparr>)) (initHeadNode s) (xs @ [(fst y, snd y)])"
      using Cons.prems(1) False Cons.prems(3) n y by (intro chain_snoc) auto
    moreover have "\<forall>z \<in> set ys. fst z \<noteq> fst (last xs)"
    proof
      fix z assume "z \<in> set ys"
      then have "fst z \<in> fst ` set ys" by (rule imageI)
      moreover from Cons.prems(3) have "fst ` set xs \<inter> fst ` set ys = {}" by simp
      ultimately have "fst z \<notin> fst ` set xs" by blast
      with \<open>fst (last xs) \<in> fst ` set xs\<close> show "fst z \<noteq> fst (last xs)" by metis
    qed
    ultimately show ?thesis
      using AppendToInitializersTail_next[OF head tail n, of "fst y"] by simp
  qed
  then obtain s2 where s2: "AppendToInitializersTail (Some (fst y)) s = Inr s2"
    and c2: "chain (nodes s2) (initHeadNode s2) (xs @ [y])"
    and t2: "initTailNode s2 = Some (fst y)"
    and n2: "\<forall>z \<in> set ys. nodes s2 (fst z) = nodes s (fst z)"
    by blast
  have "\<exists>s1. register (map fst ys) s2 = Inr s1 \<and> chain (nodes s1) (initHeadNode s1) ((xs @ [y]) @ ys)"
  proof (rule Cons.IH[OF c2])
    show "xs @ [y] \<noteq> [] \<longrightarrow> initTailNode s2 = Some (fst (last (xs @ [y])))" using t2 by simp
    show "distinct (map fst ((xs @ [y]) @ ys))" using Cons.prems(3) by simp
    show "\<forall>z \<in> set ys. nodes s2 (fst z) = Some \<lparr>init = snd z, next = None\<rparr>"
      using n2 Cons.prems(4) by simp
  qed
  with s2 show ?case by (simp add: seq_def)
qed

text \<open>
  C6. Let the chain be empty and let the nodes at the distinct addresses \<open>ns\<close>, which hold
  the initializers \<open>fs\<close> and null \<^verbatim>\<open>next\<close> pointers, be registered in this order. Then the
  registration returns, and after it every call of \<^verbatim>\<open>InitOrDeinitGlobalVariables\<close>, whatever
  the phase, returns, having called exactly the initializers \<open>fs\<close>, each once for each of
  its registrations, in the order of registration; the phases of deinitialization go in
  this same order, not in the reverse one.
\<close>

theorem registered_initializers_in_order:
  assumes "initHeadNode s = None" and "distinct ns"
    and "map (nodes s) ns = map (\<lambda>f. Some \<lparr>init = f, next = None\<rparr>) fs"
  shows "\<exists>s1. register ns s = Inr s1
     \<and> (\<forall>tag. InitOrDeinitGlobalVariables tag s1
                = Inr (s1\<lparr>trace := trace s1 @ Call_InitOrDeinitGlobalVariables tag # map (\<lambda>f. Call_init f tag) fs\<rparr>))"
proof -
  from assms(3) have len: "length ns = length fs"
    by (metis length_map)
  have live: "\<forall>y \<in> set (zip ns fs). nodes s (fst y) = Some \<lparr>init = snd y, next = None\<rparr>"
  proof
    fix y assume "y \<in> set (zip ns fs)"
    then obtain i where i: "i < length ns" "i < length fs" "y = (ns ! i, fs ! i)"
      by (auto simp: set_zip)
    from assms(3) i have "map (nodes s) ns ! i = map (\<lambda>f. Some \<lparr>init = f, next = None\<rparr>) fs ! i"
      by simp
    with i show "nodes s (fst y) = Some \<lparr>init = snd y, next = None\<rparr>" by simp
  qed
  have "\<exists>s1. register (map fst (zip ns fs)) s = Inr s1 \<and> chain (nodes s1) (initHeadNode s1) ([] @ zip ns fs)"
  proof (rule register_chain)
    show "chain (nodes s) (initHeadNode s) []" using assms(1) by simp
    show "[] \<noteq> [] \<longrightarrow> initTailNode s = Some (fst (last []))" by simp
    show "distinct (map fst ([] @ zip ns fs))" using assms(2) len by simp
    show "\<forall>y \<in> set (zip ns fs). nodes s (fst y) = Some \<lparr>init = snd y, next = None\<rparr>" by (rule live)
  qed
  with len obtain s1 where r: "register ns s = Inr s1" and c: "chain (nodes s1) (initHeadNode s1) (zip ns fs)"
    by auto
  have "InitOrDeinitGlobalVariables tag s1
          = Inr (s1\<lparr>trace := trace s1 @ Call_InitOrDeinitGlobalVariables tag # map (\<lambda>f. Call_init f tag) fs\<rparr>)" for tag
  proof -
    from c have "chain (nodes (log (Call_InitOrDeinitGlobalVariables tag) s1))
        (initHeadNode s1) (zip ns fs)"
      by (simp add: log_def)
    moreover have "map (\<lambda>x. Call_init (snd x) tag) (zip ns fs)
        = map (\<lambda>f. Call_init f tag) (map snd (zip ns fs))"
      by (simp add: comp_def)
    with len have "map (\<lambda>x. Call_init (snd x) tag) (zip ns fs) = map (\<lambda>f. Call_init f tag) fs"
      by simp
    ultimately show ?thesis
      using walk_initializers_chain[of "log (Call_InitOrDeinitGlobalVariables tag) s1" "initHeadNode s1" "zip ns fs" tag]
      by (simp add: InitOrDeinitGlobalVariables_def log_def)
  qed
  with r show ?thesis by blast
qed

theorem registered_initializers_in_order_witness:
  "\<exists>s1. register [32, 48] two_nodes = Inr s1
     \<and> InitOrDeinitGlobalVariables INIT_GLOBALS s1
          = Inr (s1\<lparr>trace := trace s1 @ [Call_InitOrDeinitGlobalVariables INIT_GLOBALS,
                   Call_init 7 INIT_GLOBALS, Call_init 8 INIT_GLOBALS]\<rparr>)
     \<and> InitOrDeinitGlobalVariables DEINIT_GLOBALS s1
          = Inr (s1\<lparr>trace := trace s1 @ [Call_InitOrDeinitGlobalVariables DEINIT_GLOBALS,
                   Call_init 7 DEINIT_GLOBALS, Call_init 8 DEINIT_GLOBALS]\<rparr>)"
proof -
  have a: "initHeadNode two_nodes = None" by (simp add: two_nodes_def initial_def)
  have b: "distinct [32, 48 :: nat]" by simp
  have c: "map (nodes two_nodes) [32, 48] = map (\<lambda>f. Some \<lparr>init = f, next = None\<rparr>) [7, 8]"
    by (simp add: two_nodes_def)
  from registered_initializers_in_order [OF a b c] show ?thesis by auto
qed

subsection \<open>Destruction\<close>

lemma unlink_runtime_post:
  "unlink_runtime state current previous s = Some y \<Longrightarrow> unlink_post s y"
proof (induction state current previous s y rule: unlink_runtime.raw_induct[rotated, consumes 1])
  case (1 unlink state current previous s y)
  show ?case
  proof (cases current)
    case None
    with 1(2) show ?thesis by (auto simp: unlink_post_def)
  next
    case (Some c)
    show ?thesis
    proof (cases "heap s c")
      case None
      with Some 1(2) show ?thesis by (auto simp: unlink_post_def)
    next
      case (Some r)
      show ?thesis
      proof (cases "current = state")
        case True
        show ?thesis
        proof (cases previous)
          case None
          with True \<open>heap s c = Some r\<close> \<open>current = Some c\<close> 1(2)
          have "y = Inr (store_runtimeStateList (RuntimeState.next r) s)" by auto
          then show ?thesis unfolding unlink_post_def by (simp only: sum.case) blast
        next
          case (Some pv)
          with True \<open>heap s c = Some r\<close> \<open>current = Some c\<close> 1(2)
          have "y = store_next (Some pv) (RuntimeState.next r) s" by auto
          then show ?thesis
            by (cases "store_next (Some pv) (RuntimeState.next r) s") (auto simp: unlink_post_def)
        qed
      next
        case False
        with Some \<open>current = Some c\<close> 1(2) have "unlink state (RuntimeState.next r) current s = Some y"
          by simp
        then show ?thesis by (rule 1(1))
      qed
    qed
  qed
qed

lemma unlink_runtime_returns:
  assumes "unlink_runtime state current previous s = Some (Inr s')"
  shows "\<exists>h l u. s' = s\<lparr>heap := h, runtimeStateList := l, trace := trace s @ u\<rparr>
     \<and> (\<forall>e \<in> set u. \<exists>l. e = Store l)
     \<and> (\<forall>q. map_option executionStatus (h q) = map_option executionStatus (heap s q))
     \<and> (\<forall>q. map_option memoryState (h q) = map_option memoryState (heap s q))"
proof -
  from unlink_runtime_post[OF assms]
  consider "s' = s" | v where "s' = store_runtimeStateList v s"
    | q v where "store_next (Some q) v s = Inr s'"
    by (auto simp: unlink_post_def)
  then show ?thesis
  proof cases
    case 1
    then have "s' = s\<lparr>heap := heap s, runtimeStateList := runtimeStateList s, trace := trace s @ []\<rparr>"
      by simp
    then show ?thesis by (intro exI conjI) (assumption, simp_all)
  next
    case 2
    then have "s' = s\<lparr>heap := heap s, runtimeStateList := v, trace := trace s @ [Store G_runtimeStateList]\<rparr>"
      by (simp add: store_runtimeStateList_def log_def)
    then show ?thesis by (intro exI conjI) (assumption, simp_all)
  next
    case 3
    then obtain r where r: "heap s q = Some r"
      and "s' = s\<lparr>heap := (heap s)(q \<mapsto> r\<lparr>RuntimeState.next := v\<rparr>), runtimeStateList := runtimeStateList s,
                   trace := trace s @ [Store (F_next q)]\<rparr>"
      by (auto simp: store_next_def log_def split: option.splits)
    then show ?thesis by (intro exI conjI) (assumption, simp_all)
  qed
qed

lemma deinitRuntime_returns:
  assumes "deinitRuntime state s = Inr s'"
  shows "\<exists>p fs gs u m. state = Some p
     \<and> trace s' = trace s @ Call_atomicAdd (- 1) (aliveRuntimesCount s - 1)
          # phase_events DEINIT_THREAD_LOCAL_GLOBALS fs
          @ (if aliveRuntimesCount s - 1 = 0 then phase_events DEINIT_GLOBALS gs else [])
          @ Call_spinLock # u @ [Call_spinUnlock, Call_DeinitMemory m, Call_konanDestructInstance p]
     \<and> (\<forall>e \<in> set u. \<exists>l. e = Store l)
     \<and> aliveRuntimesCount s' = aliveRuntimesCount s - 1
     \<and> heap s' p = None
     \<and> (\<forall>q. q \<noteq> p \<longrightarrow> map_option executionStatus (heap s' q) = map_option executionStatus (heap s q))
     \<and> runtimeState s' = runtimeState s"
proof -
  define s1 where "s1 = s\<lparr>aliveRuntimesCount := aliveRuntimesCount s - 1,
      trace := trace s @ [Call_atomicAdd (- 1) (aliveRuntimesCount s - 1)]\<rparr>"
  from assms obtain s2 s3 s4 s5 m p where
    a: "InitOrDeinitGlobalVariables DEINIT_THREAD_LOCAL_GLOBALS s1 = Inr s2"
    and b: "(if aliveRuntimesCount s - 1 = 0 then InitOrDeinitGlobalVariables DEINIT_GLOBALS s2 else Inr s2) = Inr s3"
    and c: "Kotlin_lockRuntimes s3 = Inr s4"
    and d: "unlink_runtime state (runtimeStateList s4) None s4 = Some (Inr s5)"
    and e: "load_memoryState state (Kotlin_unlockRuntimes s5) = Inr m"
    and f: "state = Some p"
    and g: "s' = konanDestructInstance p (log (Call_DeinitMemory m) (Kotlin_unlockRuntimes s5))"
    by (auto simp: deinitRuntime_def atomicAdd_def Let_def seq_def log_def s1_def
        split: sum.splits option.splits)
  from InitOrDeinitGlobalVariables_returns[OF a] obtain fs where
    s2: "s2 = s1\<lparr>trace := trace s1 @ phase_events DEINIT_THREAD_LOCAL_GLOBALS fs\<rparr>" by blast
  have "\<exists>gs. s3 = s2\<lparr>trace := trace s2 @ (if aliveRuntimesCount s - 1 = 0 then phase_events DEINIT_GLOBALS gs else [])\<rparr>"
  proof (cases "aliveRuntimesCount s - 1 = 0")
    case True
    with b have "InitOrDeinitGlobalVariables DEINIT_GLOBALS s2 = Inr s3" by simp
    from InitOrDeinitGlobalVariables_returns[OF this] True show ?thesis by simp
  next
    case False
    with b show ?thesis by simp
  qed
  then obtain gs where
    s3: "s3 = s2\<lparr>trace := trace s2 @ (if aliveRuntimesCount s - 1 = 0 then phase_events DEINIT_GLOBALS gs else [])\<rparr>"
    by blast
  from c have s4: "s4 = s3\<lparr>runtimesLock := 1, trace := trace s3 @ [Call_spinLock]\<rparr>"
    by (auto simp: Kotlin_lockRuntimes_def log_def split: if_splits)
  from unlink_runtime_returns[OF d] obtain h l u where
    s5: "s5 = s4\<lparr>heap := h, runtimeStateList := l, trace := trace s4 @ u\<rparr>"
    and u: "\<forall>e \<in> set u. \<exists>l. e = Store l"
    and h: "\<forall>q. map_option executionStatus (h q) = map_option executionStatus (heap s4 q)"
    by blast
  have heap4: "heap s4 = heap s" by (simp add: s4 s3 s2 s1_def)
  have "trace s' = trace s @ Call_atomicAdd (- 1) (aliveRuntimesCount s - 1)
          # phase_events DEINIT_THREAD_LOCAL_GLOBALS fs
          @ (if aliveRuntimesCount s - 1 = 0 then phase_events DEINIT_GLOBALS gs else [])
          @ Call_spinLock # u @ [Call_spinUnlock, Call_DeinitMemory m, Call_konanDestructInstance p]"
    by (simp add: g s5 s4 s3 s2 s1_def konanDestructInstance_def log_def Kotlin_unlockRuntimes_def)
  moreover have "aliveRuntimesCount s' = aliveRuntimesCount s - 1"
    by (simp add: g s5 s4 s3 s2 s1_def konanDestructInstance_def log_def Kotlin_unlockRuntimes_def)
  moreover have "heap s' = h(p := None)"
    by (simp add: g s5 konanDestructInstance_def log_def Kotlin_unlockRuntimes_def)
  moreover have "runtimeState s' = runtimeState s"
    by (simp add: g s5 s4 s3 s2 s1_def konanDestructInstance_def log_def Kotlin_unlockRuntimes_def)
  ultimately show ?thesis using f u h heap4 by auto
qed


subsection \<open>How often the phases run\<close>

lemmas eval_defs = initRuntime_def deinitRuntime_def konanConstructInstance_def konanDestructInstance_def
  seq_def log_def store_defs atomicAdd_def Kotlin_lockRuntimes_def Kotlin_unlockRuntimes_def zeroed_def
  Let_def InitOrDeinitGlobalVariables_def walk_initializers.simps unlink_runtime.simps
  search_thread.simps updateStatusIf_def RuntimeCheck_def initial_def phase_defs status_defs

lemma count_phase_events:
  "count_list (phase_events tag fs) (Call_InitOrDeinitGlobalVariables tag') = (if tag = tag' then 1 else 0)"
proof -
  have "Call_InitOrDeinitGlobalVariables tag' \<notin> set (map (\<lambda>f. Call_init f tag) fs)" by auto
  then have "count_list (map (\<lambda>f. Call_init f tag) fs) (Call_InitOrDeinitGlobalVariables tag') = 0"
    by simp
  then show ?thesis by (auto simp: phase_events_def)
qed

lemma count_stores:
  assumes "\<forall>e \<in> set u. \<exists>l. e = Store l"
  shows "count_list u (Call_InitOrDeinitGlobalVariables tag) = 0"
proof -
  from assms have "Call_InitOrDeinitGlobalVariables tag \<notin> set u" by auto
  then show ?thesis by simp
qed

lemma initRuntime_runs:
  assumes "initRuntime t (Some p) mem s = Inr (result, s')"
  shows "\<exists>es. trace s' = trace s @ es \<and> aliveRuntimesCount s' = aliveRuntimesCount s + 1
     \<and> (\<forall>tag. count_list es (Call_InitOrDeinitGlobalVariables tag)
          = (if tag = INIT_THREAD_LOCAL_GLOBALS \<or> (tag = INIT_GLOBALS \<and> aliveRuntimesCount s = 0) then 1 else 0))"
proof -
  from initRuntime_returns[OF assms] obtain fs gs where
    s': "s' = (created t p mem s)\<lparr>trace := trace s
            @ create_events t p (aliveRuntimesCount s + 1)
            @ (if aliveRuntimesCount s + 1 = 1 then first_events t @ phase_events INIT_GLOBALS fs else [])
            @ phase_events INIT_THREAD_LOCAL_GLOBALS gs\<rparr>"
    by blast
  define es where "es = create_events t p (aliveRuntimesCount s + 1)
            @ (if aliveRuntimesCount s + 1 = 1 then first_events t @ phase_events INIT_GLOBALS fs else [])
            @ phase_events INIT_THREAD_LOCAL_GLOBALS gs"
  have "trace s' = trace s @ es" by (simp add: s' es_def)
  moreover have "aliveRuntimesCount s' = aliveRuntimesCount s + 1" by (simp add: s' created_def)
  moreover have "count_list es (Call_InitOrDeinitGlobalVariables tag)
          = (if tag = INIT_THREAD_LOCAL_GLOBALS \<or> (tag = INIT_GLOBALS \<and> aliveRuntimesCount s = 0) then 1 else 0)" for tag
    by (auto simp: es_def count_phase_events create_events_def first_events_def phase_defs)
  ultimately show ?thesis by blast
qed

lemma deinitRuntime_runs:
  assumes "deinitRuntime state s = Inr s'"
  shows "\<exists>es. trace s' = trace s @ es \<and> aliveRuntimesCount s' = aliveRuntimesCount s - 1
     \<and> (\<forall>tag. count_list es (Call_InitOrDeinitGlobalVariables tag)
          = (if tag = DEINIT_THREAD_LOCAL_GLOBALS \<or> (tag = DEINIT_GLOBALS \<and> aliveRuntimesCount s = 1) then 1 else 0))"
proof -
  from deinitRuntime_returns[OF assms] obtain p fs gs u m where
    tr: "trace s' = trace s @ Call_atomicAdd (- 1) (aliveRuntimesCount s - 1)
          # phase_events DEINIT_THREAD_LOCAL_GLOBALS fs
          @ (if aliveRuntimesCount s - 1 = 0 then phase_events DEINIT_GLOBALS gs else [])
          @ Call_spinLock # u @ [Call_spinUnlock, Call_DeinitMemory m, Call_konanDestructInstance p]"
    and u: "\<forall>e \<in> set u. \<exists>l. e = Store l"
    and c: "aliveRuntimesCount s' = aliveRuntimesCount s - 1"
    by blast
  define es where "es = Call_atomicAdd (- 1) (aliveRuntimesCount s - 1)
          # phase_events DEINIT_THREAD_LOCAL_GLOBALS fs
          @ (if aliveRuntimesCount s - 1 = 0 then phase_events DEINIT_GLOBALS gs else [])
          @ Call_spinLock # u @ [Call_spinUnlock, Call_DeinitMemory m, Call_konanDestructInstance p]"
  have "count_list es (Call_InitOrDeinitGlobalVariables tag)
          = (if tag = DEINIT_THREAD_LOCAL_GLOBALS \<or> (tag = DEINIT_GLOBALS \<and> aliveRuntimesCount s = 1) then 1 else 0)" for tag
    by (auto simp: es_def count_phase_events count_stores[OF u] phase_defs)
  with tr c show ?thesis unfolding es_def by blast
qed

text \<open>
  When the calls do not overlap, the phases run as often as the order of the calls
  tells: \<open>expected_runs\<close> counts the creations that find the count at 0 and the destructions
  that find it at 1.
\<close>

lemma sequential_runs:
  assumes "run ops s = Inr s'"
  shows "\<exists>es. trace s' = trace s @ es
     \<and> (\<forall>tag. count_list es (Call_InitOrDeinitGlobalVariables tag)
                = expected_runs tag (aliveRuntimesCount s) ops)"
  using assms
proof (induction ops arbitrary: s)
  case Nil
  then show ?case by simp
next
  case (Cons op ops)
  show ?case
  proof (cases op)
    case (Creation t alloc mem)
    show ?thesis
    proof (cases alloc)
      case None
      with Creation Cons.prems
      have "run ops (s\<lparr>trace := trace s @ [Call_SetKonanTerminateHandler, Call_konanConstructInstance]\<rparr>) = Inr s'"
        by (simp add: initRuntime_null seq_def)
      from Cons.IH[OF this] obtain es where
        "trace s' = trace s @ [Call_SetKonanTerminateHandler, Call_konanConstructInstance] @ es"
        and "\<forall>tag. count_list es (Call_InitOrDeinitGlobalVariables tag) = expected_runs tag (aliveRuntimesCount s) ops"
        by auto
      with Creation None show ?thesis
        by (intro exI[of _ "[Call_SetKonanTerminateHandler, Call_konanConstructInstance] @ es"]) simp
    next
      case (Some p)
      with Creation Cons.prems obtain result s1 where
        a: "initRuntime t (Some p) mem s = Inr (result, s1)" and b: "run ops s1 = Inr s'"
        by (auto simp: seq_def split: sum.splits)
      from initRuntime_runs[OF a] obtain es1 where
        e1: "trace s1 = trace s @ es1" "aliveRuntimesCount s1 = aliveRuntimesCount s + 1"
        "\<forall>tag. count_list es1 (Call_InitOrDeinitGlobalVariables tag)
          = (if tag = INIT_THREAD_LOCAL_GLOBALS \<or> (tag = INIT_GLOBALS \<and> aliveRuntimesCount s = 0) then 1 else 0)"
        by blast
      from Cons.IH[OF b] obtain es2 where
        e2: "trace s' = trace s1 @ es2"
        "\<forall>tag. count_list es2 (Call_InitOrDeinitGlobalVariables tag) = expected_runs tag (aliveRuntimesCount s1) ops"
        by blast
      from e1 e2 Creation Some show ?thesis
        by (intro exI[of _ "es1 @ es2"]) simp
    qed
  next
    case (Destruction state)
    with Cons.prems obtain s1 where
      a: "deinitRuntime state s = Inr s1" and b: "run ops s1 = Inr s'"
      by (auto simp: seq_def split: sum.splits)
    from deinitRuntime_runs[OF a] obtain es1 where
      e1: "trace s1 = trace s @ es1" "aliveRuntimesCount s1 = aliveRuntimesCount s - 1"
      "\<forall>tag. count_list es1 (Call_InitOrDeinitGlobalVariables tag)
        = (if tag = DEINIT_THREAD_LOCAL_GLOBALS \<or> (tag = DEINIT_GLOBALS \<and> aliveRuntimesCount s = 1) then 1 else 0)"
      by blast
    from Cons.IH[OF b] obtain es2 where
      e2: "trace s' = trace s1 @ es2"
      "\<forall>tag. count_list es2 (Call_InitOrDeinitGlobalVariables tag) = expected_runs tag (aliveRuntimesCount s1) ops"
      by blast
    from e1 e2 Destruction show ?thesis
      by (intro exI[of _ "es1 @ es2"]) simp
  qed
qed

lemma sequential_runs_example:
  "\<exists>s'. run [Creation 5 (Some 16) 42, Creation 6 (Some 32) 43, Destruction (Some 16), Destruction (Some 32)] initial = Inr s'
     \<and> count_list (trace s') (Call_InitOrDeinitGlobalVariables INIT_GLOBALS) = 1
     \<and> count_list (trace s') (Call_InitOrDeinitGlobalVariables DEINIT_GLOBALS) = 1
     \<and> count_list (trace s') (Call_InitOrDeinitGlobalVariables INIT_THREAD_LOCAL_GLOBALS) = 2
     \<and> count_list (trace s') (Call_InitOrDeinitGlobalVariables DEINIT_THREAD_LOCAL_GLOBALS) = 2"
proof -
  have "\<exists>s'. run [Creation 5 (Some 16) 42, Creation 6 (Some 32) 43, Destruction (Some 16), Destruction (Some 32)] initial = Inr s'"
    by (simp add: eval_defs)
  then obtain s' where r: "run [Creation 5 (Some 16) 42, Creation 6 (Some 32) 43, Destruction (Some 16), Destruction (Some 32)] initial = Inr s'"
    by blast
  from sequential_runs [OF r] r show ?thesis
    by (auto simp: initial_def phase_defs)
qed


subsection \<open>How often the phases run in interleaved calls\<close>

lemma performed_phase_events:
  "concat (map performed (phase_events tag fs)) = [Run tag]"
  by (induction fs) (simp_all add: phase_events_def)

lemma incurred_phase_events:
  "concat (map incurred (phase_events tag fs)) = []"
  by (induction fs) (simp_all add: phase_events_def)

lemma performed_stores:
  "\<forall>e \<in> set u. \<exists>l. e = Store l \<Longrightarrow> concat (map performed u) = []"
  by (induction u) auto

lemma incurred_stores:
  "\<forall>e \<in> set u. \<exists>l. e = Store l \<Longrightarrow> concat (map incurred u) = []"
  by (induction u) auto

lemma step_okI:
  "trace s' = trace s @ es \<Longrightarrow> balanced es [a] [a'] \<Longrightarrow> step_ok a s a' s'"
  by (simp add: step_ok_def news_def)

lemmas step_unfold = log_def store_defs seq_def konanConstructInstance_def konanDestructInstance_def
  atomicAdd_def Kotlin_unlockRuntimes_def Let_def

lemma phase_step_ok:
  assumes "InitOrDeinitGlobalVariables tag s = Inr s'"
    and "\<forall>ob. count_list (Run tag # owed a') ob = count_list (owed a) ob"
  shows "step_ok a s a' s'"
proof -
  from InitOrDeinitGlobalVariables_returns[OF assms(1)] obtain fs where
    "trace s' = trace s @ phase_events tag fs" by auto
  moreover have "balanced (phase_events tag fs) [a] [a']"
    unfolding balanced_def
  proof
    fix ob
    from assms(2) have "count_list (Run tag # owed a') ob = count_list (owed a) ob" by blast
    then show "count_list (concat (map performed (phase_events tag fs))) ob + count_list (concat (map owed [a'])) ob
        = count_list (concat (map incurred (phase_events tag fs))) ob + count_list (concat (map owed [a])) ob"
      by (simp add: performed_phase_events incurred_phase_events split: if_splits)
  qed
  ultimately show ?thesis by (rule step_okI)
qed

lemma step_InitRuntime_ok:
  assumes "step (InitRuntime l t alloc mem result firstRuntime) s = Inr (a', s')"
  shows "step_ok (InitRuntime l t alloc mem result firstRuntime) s a' s'"
proof (cases l)
  case L115
  with assms obtain s1 where "InitOrDeinitGlobalVariables INIT_GLOBALS s = Inr s1"
    and "a' = InitRuntime L117 t alloc mem result firstRuntime" "s' = s1"
    by (auto simp: seq_def split: sum.splits)
  with L115 show ?thesis by (intro phase_step_ok) auto
next
  case L117
  with assms obtain s1 where "InitOrDeinitGlobalVariables INIT_THREAD_LOCAL_GLOBALS s = Inr s1"
    and "a' = InitRuntime L118 t alloc mem result firstRuntime" "s' = s1"
    by (auto simp: seq_def split: sum.splits)
  with L117 show ?thesis by (intro phase_step_ok) auto
qed (use assms in \<open>auto simp: step_ok_def news_def balanced_def step_unfold phase_defs
      split: option.splits if_splits\<close>)

lemma step_DeinitRuntime_ok:
  assumes "step (DeinitRuntime l state lastRuntime) s = Inr (a', s')"
  shows "step_ok (DeinitRuntime l state lastRuntime) s a' s'"
proof (cases l)
  case L123
  with assms obtain s1 where "InitOrDeinitGlobalVariables DEINIT_THREAD_LOCAL_GLOBALS s = Inr s1"
    and "a' = DeinitRuntime L124 state lastRuntime" "s' = s1"
    by (auto simp: seq_def split: sum.splits)
  with L123 show ?thesis by (intro phase_step_ok) (auto simp: phase_defs)
next
  case L125
  with assms obtain s1 where "InitOrDeinitGlobalVariables DEINIT_GLOBALS s = Inr s1"
    and "a' = DeinitRuntime L126 state lastRuntime" "s' = s1"
    by (auto simp: seq_def split: sum.splits)
  with L125 show ?thesis by (intro phase_step_ok) auto
next
  case L127
  with assms have u: "unlink_runtime state (runtimeStateList s) None s = Some (Inr s')"
    and a': "a' = DeinitRuntime L140 state lastRuntime"
    by (auto simp: seq_def split: sum.splits option.splits)
  from unlink_runtime_returns[OF u] obtain es where
    tr: "trace s' = trace s @ es" and st: "\<forall>e \<in> set es. \<exists>l. e = Store l"
    by auto
  have "balanced es [DeinitRuntime l state lastRuntime] [a']"
    using L127 a' by (simp add: balanced_def performed_stores[OF st] incurred_stores[OF st])
  with tr show ?thesis by (rule step_okI)
qed (use assms in \<open>auto simp: step_ok_def news_def balanced_def step_unfold phase_defs load_memoryState_def
      split: option.splits if_splits\<close>)

lemma step_ok:
  assumes "step a s = Inr (a', s')"
  shows "step_ok a s a' s'"
proof (cases a)
  case (InitRuntime l t alloc mem result firstRuntime)
  with assms show ?thesis by (simp add: step_InitRuntime_ok)
next
  case (DeinitRuntime l state lastRuntime)
  with assms show ?thesis by (simp add: step_DeinitRuntime_ok)
next
  case (Returned result)
  with assms show ?thesis by (auto simp: step_ok_def news_def balanced_def)
qed

text \<open>A call that runs alone takes the steps of the function as defined above.\<close>

lemma replicate_18: "replicate 18 (0::nat) = [0,0,0,0,0,0,0,0,0,0,0,0,0,0,0,0,0,0]"
  by (simp add: eval_nat_numeral)

lemma replicate_9: "replicate 9 (0::nat) = [0,0,0,0,0,0,0,0,0]"
  by (simp add: eval_nat_numeral)

lemma initRuntime_steps:
  assumes "initRuntime t alloc mem s = Inr (result, s')"
  shows "interleave (replicate 18 0) [InitRuntime L99 t alloc mem None False] s = Inr ([Returned result], s')"
proof (cases alloc)
  case None
  with assms show ?thesis
    by (simp add: replicate_18 initRuntime_null konanConstructInstance_def log_def seq_def)
next
  case (Some p)
  with assms have lock: "runtimesLock s = 0"
    using initRuntime_locked[of s t p mem] by auto
  show ?thesis
  proof (cases "aliveRuntimesCount s + 1 = 1")
    case True
    with assms lock Some obtain s7 where
      a: "InitOrDeinitGlobalVariables INIT_GLOBALS
            ((created t p mem s)\<lparr>trace := trace s @ create_events t p 1 @ first_events t\<rparr>) = Inr s7"
      and b: "InitOrDeinitGlobalVariables INIT_THREAD_LOCAL_GLOBALS s7 = Inr s'" and r: "result = Some p"
      by (auto simp: initRuntime_first seq_def split: sum.splits)
    from a b r True lock Some show ?thesis
      by (simp add: replicate_18 initRuntime_unfold)
  next
    case False
    with assms lock Some have b: "InitOrDeinitGlobalVariables INIT_THREAD_LOCAL_GLOBALS
            ((created t p mem s)\<lparr>trace := trace s @ create_events t p (aliveRuntimesCount s + 1)\<rparr>) = Inr s'"
      and r: "result = Some p"
      by (auto simp: initRuntime_later seq_def split: sum.splits)
    from b r False lock Some show ?thesis
      by (simp add: replicate_18 initRuntime_unfold)
  qed
qed

lemma interleave_one:
  "step a s = Inr (a', s') \<Longrightarrow> interleave (0 # sched) [a] s = interleave sched [a'] s'"
  by (simp add: seq_def)

lemma deinitRuntime_steps:
  assumes "deinitRuntime state s = Inr s'"
  shows "interleave (replicate 9 0) [DeinitRuntime L122 state False] s = Inr ([Returned None], s')"
proof -
  define s1 where "s1 = s\<lparr>aliveRuntimesCount := aliveRuntimesCount s - 1,
      trace := trace s @ [Call_atomicAdd (- 1) (aliveRuntimesCount s - 1)]\<rparr>"
  define last where "last = (aliveRuntimesCount s - 1 = 0)"
  from assms obtain s2 s3 s5 m p where
    a: "InitOrDeinitGlobalVariables DEINIT_THREAD_LOCAL_GLOBALS s1 = Inr s2"
    and b: "(if last then InitOrDeinitGlobalVariables DEINIT_GLOBALS s2 else Inr s2) = Inr s3"
    and c: "runtimesLock s3 = 0"
    and d: "unlink_runtime state (runtimeStateList s3) None (log Call_spinLock (s3\<lparr>runtimesLock := 1\<rparr>)) = Some (Inr s5)"
    and e: "load_memoryState state (Kotlin_unlockRuntimes s5) = Inr m"
    and f: "state = Some p"
    and g: "s' = konanDestructInstance p (log (Call_DeinitMemory m) (Kotlin_unlockRuntimes s5))"
    by (auto simp: deinitRuntime_def atomicAdd_def Let_def seq_def log_def s1_def last_def Kotlin_lockRuntimes_def
        split: sum.splits option.splits if_splits)
  have st1: "step (DeinitRuntime L122 state False) s = Inr (DeinitRuntime L123 state last, s1)"
    by (simp add: atomicAdd_def Let_def log_def s1_def last_def)
  have st2: "step (DeinitRuntime L123 state last) s1 = Inr (DeinitRuntime L124 state last, s2)"
    using a by (simp add: seq_def)
  have st4: "step (DeinitRuntime L126 state last) s3
      = Inr (DeinitRuntime L127 state last, log Call_spinLock (s3\<lparr>runtimesLock := 1\<rparr>))"
    using c by simp
  have st5: "step (DeinitRuntime L127 state last) (log Call_spinLock (s3\<lparr>runtimesLock := 1\<rparr>))
      = Inr (DeinitRuntime L140 state last, s5)"
    using d by (simp add: seq_def log_def)
  have st6: "step (DeinitRuntime L140 state last) s5 = Inr (DeinitRuntime L141 state last, Kotlin_unlockRuntimes s5)"
    by simp
  have st7: "step (DeinitRuntime L141 state last) (Kotlin_unlockRuntimes s5)
      = Inr (DeinitRuntime L142 state last, log (Call_DeinitMemory m) (Kotlin_unlockRuntimes s5))"
    using e by (simp add: seq_def)
  have st8: "step (DeinitRuntime L142 state last) (log (Call_DeinitMemory m) (Kotlin_unlockRuntimes s5))
      = Inr (Returned None, s')"
    using f g by simp
  have tail: "interleave (0 # 0 # 0 # 0 # 0 # sched) [DeinitRuntime L126 state last] s3
      = interleave sched [Returned None] s'" for sched
    by (simp only: interleave_one[OF st4] interleave_one[OF st5] interleave_one[OF st6]
        interleave_one[OF st7] interleave_one[OF st8])
  have head: "interleave (0 # 0 # sched) [DeinitRuntime L122 state False] s
      = interleave sched [DeinitRuntime L124 state last] s2" for sched
    by (simp only: interleave_one[OF st1] interleave_one[OF st2])
  show ?thesis
  proof (cases last)
    case True
    with b have "step (DeinitRuntime L125 state last) s2 = Inr (DeinitRuntime L126 state last, s3)"
      by (simp add: seq_def)
    moreover from True have "step (DeinitRuntime L124 state last) s2 = Inr (DeinitRuntime L125 state last, s2)"
      by simp
    ultimately have mid: "interleave (0 # 0 # sched) [DeinitRuntime L124 state last] s2
        = interleave sched [DeinitRuntime L126 state last] s3" for sched
      by (simp only: interleave_one)
    have "interleave (replicate 9 0) [DeinitRuntime L122 state False] s
        = interleave [0, 0, 0, 0, 0, 0, 0] [DeinitRuntime L124 state last] s2"
      by (simp only: replicate_9 head)
    also have "\<dots> = interleave [0, 0, 0, 0, 0] [DeinitRuntime L126 state last] s3" by (rule mid)
    also have "\<dots> = interleave [] [Returned None] s'" by (rule tail)
    finally show ?thesis by simp
  next
    case False
    with b have "s3 = s2" by simp
    moreover from False have "step (DeinitRuntime L124 state last) s2 = Inr (DeinitRuntime L126 state last, s2)"
      by simp
    ultimately have mid: "interleave (0 # sched) [DeinitRuntime L124 state last] s2
        = interleave sched [DeinitRuntime L126 state last] s3" for sched
      by (simp only: interleave_one)
    have "interleave (replicate 9 0) [DeinitRuntime L122 state False] s
        = interleave [0, 0, 0, 0, 0, 0, 0] [DeinitRuntime L124 state last] s2"
      by (simp only: replicate_9 head)
    also have "\<dots> = interleave [0, 0, 0, 0, 0, 0] [DeinitRuntime L126 state last] s3" by (rule mid)
    also have "\<dots> = interleave [0] [Returned None] s'" by (rule tail)
    finally show ?thesis by (simp add: seq_def)
  qed
qed

lemma balanced_refl: "balanced [] as as"
  by (simp add: balanced_def)

lemma balanced_trans:
  "balanced es1 as bs \<Longrightarrow> balanced es2 bs cs \<Longrightarrow> balanced (es1 @ es2) as cs"
  unfolding balanced_def
proof
  fix ob
  assume a: "\<forall>ob. count_list (concat (map performed es1)) ob + count_list (concat (map owed bs)) ob
          = count_list (concat (map incurred es1)) ob + count_list (concat (map owed as)) ob"
    and b: "\<forall>ob. count_list (concat (map performed es2)) ob + count_list (concat (map owed cs)) ob
          = count_list (concat (map incurred es2)) ob + count_list (concat (map owed bs)) ob"
  from a have "count_list (concat (map performed es1)) ob + count_list (concat (map owed bs)) ob
          = count_list (concat (map incurred es1)) ob + count_list (concat (map owed as)) ob" by blast
  moreover from b have "count_list (concat (map performed es2)) ob + count_list (concat (map owed cs)) ob
          = count_list (concat (map incurred es2)) ob + count_list (concat (map owed bs)) ob" by blast
  ultimately show "count_list (concat (map performed (es1 @ es2))) ob + count_list (concat (map owed cs)) ob
          = count_list (concat (map incurred (es1 @ es2))) ob + count_list (concat (map owed as)) ob"
    by simp
qed

lemma balanced_update:
  assumes "i < length as" and "balanced es [as ! i] [a]"
  shows "balanced es as (as[i := a])"
proof -
  have as: "as = take i as @ as ! i # drop (Suc i) as"
    using assms(1) by (rule id_take_nth_drop)
  have upd: "as[i := a] = take i as @ a # drop (Suc i) as"
    using assms(1) by (rule upd_conv_take_nth_drop)
  show ?thesis
    unfolding balanced_def
  proof
    fix ob
    from assms(2) have "count_list (concat (map performed es)) ob + count_list (owed a) ob
          = count_list (concat (map incurred es)) ob + count_list (owed (as ! i)) ob"
      by (simp add: balanced_def)
    moreover have "count_list (concat (map owed as)) ob
        = count_list (concat (map owed (take i as))) ob + count_list (owed (as ! i)) ob
          + count_list (concat (map owed (drop (Suc i) as))) ob"
      by (subst as) simp
    moreover have "count_list (concat (map owed (as[i := a]))) ob
        = count_list (concat (map owed (take i as))) ob + count_list (owed a) ob
          + count_list (concat (map owed (drop (Suc i) as))) ob"
      by (subst upd) simp
    ultimately show "count_list (concat (map performed es)) ob + count_list (concat (map owed (as[i := a]))) ob
          = count_list (concat (map incurred es)) ob + count_list (concat (map owed as)) ob"
      by simp
  qed
qed

lemma interleave_balanced:
  assumes "interleave sched as s = Inr (as', s')"
  shows "\<exists>es. trace s' = trace s @ es \<and> balanced es as as'"
  using assms
proof (induction sched arbitrary: as s)
  case Nil
  then have "trace s' = trace s @ []" "balanced [] as as'" by (simp_all add: balanced_refl)
  then show ?case by blast
next
  case (Cons i sched)
  show ?case
  proof (cases "i < length as")
    case False
    with Cons.prems have "interleave sched as s = Inr (as', s')" by simp
    then show ?thesis by (rule Cons.IH)
  next
    case True
    with Cons.prems obtain a s1 where
      st: "step (as ! i) s = Inr (a, s1)" and rest: "interleave sched (as[i := a]) s1 = Inr (as', s')"
      by (auto simp: seq_def split: sum.splits)
    from step_ok[OF st] have t1: "trace s1 = trace s @ news s s1" and b1: "balanced (news s s1) [as ! i] [a]"
      by (simp_all add: step_ok_def)
    from Cons.IH[OF rest] obtain es2 where t2: "trace s' = trace s1 @ es2" and b2: "balanced es2 (as[i := a]) as'"
      by blast
    from balanced_trans[OF balanced_update[OF True b1] b2] have "balanced (news s s1 @ es2) as as'" .
    moreover from t1 t2 have "trace s' = trace s @ (news s s1 @ es2)" by simp
    ultimately show ?thesis by blast
  qed
qed

lemma count_performed_run:
  "count_list (concat (map performed es)) (Run tag) = count_list es (Call_InitOrDeinitGlobalVariables tag)"
proof (induction es)
  case Nil
  show ?case by simp
next
  case (Cons e es)
  then show ?case by (cases e) auto
qed

lemma count_incurred:
  "count_list (concat (map incurred es)) (Run INIT_GLOBALS) = count_list es (Call_atomicAdd 1 1)"
  "count_list (concat (map incurred es)) (Run DEINIT_GLOBALS) = count_list es (Call_atomicAdd (- 1) 0)"
  "count_list (concat (map incurred es)) (Run INIT_THREAD_LOCAL_GLOBALS) = count_list (concat (map performed es)) Increment"
  "count_list (concat (map incurred es)) (Run DEINIT_THREAD_LOCAL_GLOBALS) = count_list (concat (map performed es)) Decrement"
  "count_list (concat (map incurred es)) Increment = 0"
  "count_list (concat (map incurred es)) Decrement = 0"
proof (induction es)
  case Nil
  {
    case 1 show ?case by simp
  next
    case 2 show ?case by simp
  next
    case 3 show ?case by simp
  next
    case 4 show ?case by simp
  next
    case 5 show ?case by simp
  next
    case 6 show ?case by simp
  }
next
  case (Cons e es)
  {
    case 1 with Cons show ?case by (cases e) (auto simp: phase_defs)
  next
    case 2 with Cons show ?case by (cases e) (auto simp: phase_defs)
  next
    case 3 with Cons show ?case by (cases e) (auto simp: phase_defs)
  next
    case 4 with Cons show ?case by (cases e) (auto simp: phase_defs)
  next
    case 5 with Cons show ?case by (cases e) (auto simp: phase_defs)
  next
    case 6 with Cons show ?case by (cases e) (auto simp: phase_defs)
  }
qed

lemma count_owed_start:
  "count_list (concat (map owed (map start ops))) (Run tag) = 0"
  "count_list (concat (map owed (map start ops))) Increment = length (filter creates ops)"
  "count_list (concat (map owed (map start ops))) Decrement = length (filter destroys ops)"
proof (induction ops)
  case Nil
  {
    case 1 show ?case by simp
  next
    case 2 show ?case by simp
  next
    case 3 show ?case by simp
  }
next
  case (Cons op ops)
  {
    case 1 with Cons show ?case by (cases op) auto
  next
    case 2 with Cons show ?case by (cases op) auto
  next
    case 3 with Cons show ?case by (cases op) auto
  }
qed

lemma owed_returned: "list_all returned as \<Longrightarrow> concat (map owed as) = []"
proof (induction as)
  case Nil
  show ?case by simp
next
  case (Cons a as)
  then show ?case by (cases a) auto
qed

lemma interleaved_runs:
  assumes "interleave sched (map start ops) s = Inr (as, s')" and "list_all returned as"
  shows "\<exists>es. trace s' = trace s @ es
     \<and> count_list es (Call_InitOrDeinitGlobalVariables INIT_GLOBALS) = count_list es (Call_atomicAdd 1 1)
     \<and> count_list es (Call_InitOrDeinitGlobalVariables DEINIT_GLOBALS) = count_list es (Call_atomicAdd (- 1) 0)
     \<and> count_list es (Call_InitOrDeinitGlobalVariables INIT_THREAD_LOCAL_GLOBALS) = length (filter creates ops)
     \<and> count_list es (Call_InitOrDeinitGlobalVariables DEINIT_THREAD_LOCAL_GLOBALS) = length (filter destroys ops)"
proof -
  from interleave_balanced[OF assms(1)] obtain es where
    tr: "trace s' = trace s @ es" and b: "balanced es (map start ops) as"
    by blast
  from b owed_returned[OF assms(2)]
  have eq: "count_list (concat (map performed es)) ob
      = count_list (concat (map incurred es)) ob + count_list (concat (map owed (map start ops))) ob" for ob
    by (simp add: balanced_def)
  have inc: "count_list (concat (map performed es)) Increment = length (filter creates ops)"
    by (simp add: eq count_incurred count_owed_start del: map_map)
  have dec: "count_list (concat (map performed es)) Decrement = length (filter destroys ops)"
    by (simp add: eq count_incurred count_owed_start del: map_map)
  have "count_list es (Call_InitOrDeinitGlobalVariables INIT_GLOBALS) = count_list es (Call_atomicAdd 1 1)"
    using eq[of "Run INIT_GLOBALS"] by (simp add: count_performed_run count_incurred count_owed_start del: map_map)
  moreover have "count_list es (Call_InitOrDeinitGlobalVariables DEINIT_GLOBALS) = count_list es (Call_atomicAdd (- 1) 0)"
    using eq[of "Run DEINIT_GLOBALS"] by (simp add: count_performed_run count_incurred count_owed_start del: map_map)
  moreover have "count_list es (Call_InitOrDeinitGlobalVariables INIT_THREAD_LOCAL_GLOBALS) = length (filter creates ops)"
    using eq[of "Run INIT_THREAD_LOCAL_GLOBALS"] inc by (simp add: count_performed_run count_incurred count_owed_start del: map_map)
  moreover have "count_list es (Call_InitOrDeinitGlobalVariables DEINIT_THREAD_LOCAL_GLOBALS) = length (filter destroys ops)"
    using eq[of "Run DEINIT_THREAD_LOCAL_GLOBALS"] dec by (simp add: count_performed_run count_incurred count_owed_start del: map_map)
  ultimately show ?thesis using tr by blast
qed

lemma interleave_length:
  "interleave sched as s = Inr (as', s') \<Longrightarrow> length as' = length as"
proof (induction sched arbitrary: as s)
  case Nil
  then show ?case by auto
next
  case (Cons i sched)
  show ?case
  proof (cases "i < length as")
    case False
    with Cons.prems have "interleave sched as s = Inr (as', s')" by simp
    then show ?thesis by (rule Cons.IH)
  next
    case True
    with Cons.prems obtain a s1 where
      "interleave sched (as[i := a]) s1 = Inr (as', s')"
      by (auto simp: seq_def split: sum.splits)
    from Cons.IH[OF this] show ?thesis by simp
  qed
qed

lemma history_balanced:
  assumes "interleave sched as s = Inr (as', s')" and "k < length as"
  shows "balanced (history sched as s k) [as ! k] [as' ! k]"
  using assms
proof (induction sched arbitrary: as s)
  case Nil
  then show ?case by (auto simp: balanced_refl)
next
  case (Cons i sched)
  show ?case
  proof (cases "i < length as")
    case False
    with Cons.prems have "interleave sched as s = Inr (as', s')" by simp
    from Cons.IH[OF this Cons.prems(2)] False show ?thesis by simp
  next
    case True
    with Cons.prems obtain a s1 where
      st: "step (as ! i) s = Inr (a, s1)" and rest: "interleave sched (as[i := a]) s1 = Inr (as', s')"
      by (auto simp: seq_def split: sum.splits)
    from Cons.prems(2) have k: "k < length (as[i := a])" by simp
    note ih = Cons.IH[OF rest k]
    show ?thesis
    proof (cases "i = k")
      case True
      from step_ok[OF st] have "balanced (news s s1) [as ! i] [a]" by (simp add: step_ok_def)
      moreover from ih True Cons.prems(2) have "balanced (history sched (as[i := a]) s1 k) [a] [as' ! k]"
        by simp
      ultimately have "balanced (news s s1 @ history sched (as[i := a]) s1 k) [as ! i] [as' ! k]"
        by (rule balanced_trans)
      with True \<open>i < length as\<close> st show ?thesis by simp
    next
      case False
      with ih have "balanced (history sched (as[i := a]) s1 k) [as ! k] [as' ! k]" by simp
      with False \<open>i < length as\<close> st show ?thesis by simp
    qed
  qed
qed

lemma count_atomicAdd_le:
  "count_list es (Call_atomicAdd 1 1) \<le> count_list (concat (map performed es)) Increment"
  "count_list es (Call_atomicAdd (- 1) 0) \<le> count_list (concat (map performed es)) Decrement"
proof (induction es)
  case Nil
  {
    case 1 show ?case by simp
  next
    case 2 show ?case by simp
  }
next
  case (Cons e es)
  {
    case 1 with Cons show ?case by (cases e) auto
  next
    case 2 with Cons show ?case by (cases e) auto
  }
qed

lemma history_runs:
  assumes "interleave sched (map start ops) s = Inr (as, s')" and "k < length ops" and "returned (as ! k)"
  shows "count_list (history sched (map start ops) s k) (Call_InitOrDeinitGlobalVariables INIT_GLOBALS)
           = count_list (history sched (map start ops) s k) (Call_atomicAdd 1 1)
     \<and> count_list (history sched (map start ops) s k) (Call_atomicAdd 1 1) \<le> 1
     \<and> count_list (history sched (map start ops) s k) (Call_InitOrDeinitGlobalVariables DEINIT_GLOBALS)
           = count_list (history sched (map start ops) s k) (Call_atomicAdd (- 1) 0)
     \<and> count_list (history sched (map start ops) s k) (Call_atomicAdd (- 1) 0) \<le> 1
     \<and> count_list (history sched (map start ops) s k) (Call_InitOrDeinitGlobalVariables INIT_THREAD_LOCAL_GLOBALS)
           = (if creates (ops ! k) then 1 else 0)
     \<and> count_list (history sched (map start ops) s k) (Call_InitOrDeinitGlobalVariables DEINIT_THREAD_LOCAL_GLOBALS)
           = (if destroys (ops ! k) then 1 else 0)"
proof -
  define h where "h = history sched (map start ops) s k"
  from assms(2) have k: "k < length (map start ops)" by simp
  from history_balanced[OF assms(1) k] assms(2)
  have b: "balanced h [start (ops ! k)] [as ! k]" by (simp add: h_def)
  from assms(3) have "owed (as ! k) = []" by (cases "as ! k") auto
  with b have eq: "count_list (concat (map performed h)) ob
      = count_list (concat (map incurred h)) ob + count_list (owed (start (ops ! k))) ob" for ob
    by (simp add: balanced_def)
  have inc: "count_list (concat (map performed h)) Increment = (if creates (ops ! k) then 1 else 0)"
    by (cases "ops ! k") (simp_all add: eq count_incurred)
  have dec: "count_list (concat (map performed h)) Decrement = (if destroys (ops ! k) then 1 else 0)"
    by (cases "ops ! k") (simp_all add: eq count_incurred)
  have "count_list h (Call_InitOrDeinitGlobalVariables INIT_GLOBALS) = count_list h (Call_atomicAdd 1 1)"
    using eq[of "Run INIT_GLOBALS"] by (cases "ops ! k") (simp_all add: count_performed_run count_incurred)
  moreover have "count_list h (Call_atomicAdd 1 1) \<le> 1"
    using count_atomicAdd_le(1)[of h] inc by (simp split: if_splits)
  moreover have "count_list h (Call_InitOrDeinitGlobalVariables DEINIT_GLOBALS) = count_list h (Call_atomicAdd (- 1) 0)"
    using eq[of "Run DEINIT_GLOBALS"] by (cases "ops ! k") (simp_all add: count_performed_run count_incurred)
  moreover have "count_list h (Call_atomicAdd (- 1) 0) \<le> 1"
    using count_atomicAdd_le(2)[of h] dec by (simp split: if_splits)
  moreover have "count_list h (Call_InitOrDeinitGlobalVariables INIT_THREAD_LOCAL_GLOBALS) = (if creates (ops ! k) then 1 else 0)"
    using eq[of "Run INIT_THREAD_LOCAL_GLOBALS"] inc
    by (cases "ops ! k") (simp_all add: count_performed_run count_incurred)
  moreover have "count_list h (Call_InitOrDeinitGlobalVariables DEINIT_THREAD_LOCAL_GLOBALS) = (if destroys (ops ! k) then 1 else 0)"
    using eq[of "Run DEINIT_THREAD_LOCAL_GLOBALS"] dec
    by (cases "ops ! k") (simp_all add: count_performed_run count_incurred)
  ultimately show ?thesis unfolding h_def by blast
qed

text \<open>
  C1, as amended. Let creations and destructions run interleaved, step by step under any
  schedule, and let all of them have returned. Then \<^verbatim>\<open>INIT_GLOBALS\<close> has run as often as an
  atomic increment has brought the count of alive instances from 0 to 1 (\<^verbatim>\<open>atomicAdd\<close> of 1
  returned 1), and \<^verbatim>\<open>DEINIT_GLOBALS\<close> as often as an atomic decrement has brought it from 1
  to 0: once for each such transition, which is more than once in a run where the count
  comes back to 0 and another instance is created. Each call runs \<^verbatim>\<open>INIT_GLOBALS\<close> exactly
  when its own increment returned 1, and \<^verbatim>\<open>DEINIT_GLOBALS\<close> exactly when its own decrement
  returned 0, at most once. \<^verbatim>\<open>INIT_THREAD_LOCAL_GLOBALS\<close> runs once in every creation that
  gets its object and \<^verbatim>\<open>DEINIT_THREAD_LOCAL_GLOBALS\<close> once in every destruction.
\<close>

theorem phase_runs_interleaved:
  assumes "interleave sched (map start ops) s = Inr (as, s')" and "list_all returned as"
  shows "(\<exists>es. trace s' = trace s @ es
       \<and> count_list es (Call_InitOrDeinitGlobalVariables INIT_GLOBALS) = count_list es (Call_atomicAdd 1 1)
       \<and> count_list es (Call_InitOrDeinitGlobalVariables DEINIT_GLOBALS) = count_list es (Call_atomicAdd (- 1) 0)
       \<and> count_list es (Call_InitOrDeinitGlobalVariables INIT_THREAD_LOCAL_GLOBALS) = length (filter creates ops)
       \<and> count_list es (Call_InitOrDeinitGlobalVariables DEINIT_THREAD_LOCAL_GLOBALS) = length (filter destroys ops))
     \<and> (\<forall>k < length ops.
         count_list (history sched (map start ops) s k) (Call_InitOrDeinitGlobalVariables INIT_GLOBALS)
           = count_list (history sched (map start ops) s k) (Call_atomicAdd 1 1)
       \<and> count_list (history sched (map start ops) s k) (Call_atomicAdd 1 1) \<le> 1
       \<and> count_list (history sched (map start ops) s k) (Call_InitOrDeinitGlobalVariables DEINIT_GLOBALS)
           = count_list (history sched (map start ops) s k) (Call_atomicAdd (- 1) 0)
       \<and> count_list (history sched (map start ops) s k) (Call_atomicAdd (- 1) 0) \<le> 1
       \<and> count_list (history sched (map start ops) s k) (Call_InitOrDeinitGlobalVariables INIT_THREAD_LOCAL_GLOBALS)
           = (if creates (ops ! k) then 1 else 0)
       \<and> count_list (history sched (map start ops) s k) (Call_InitOrDeinitGlobalVariables DEINIT_THREAD_LOCAL_GLOBALS)
           = (if destroys (ops ! k) then 1 else 0))"
proof (intro conjI allI impI)
  show "\<exists>es. trace s' = trace s @ es
       \<and> count_list es (Call_InitOrDeinitGlobalVariables INIT_GLOBALS) = count_list es (Call_atomicAdd 1 1)
       \<and> count_list es (Call_InitOrDeinitGlobalVariables DEINIT_GLOBALS) = count_list es (Call_atomicAdd (- 1) 0)
       \<and> count_list es (Call_InitOrDeinitGlobalVariables INIT_THREAD_LOCAL_GLOBALS) = length (filter creates ops)
       \<and> count_list es (Call_InitOrDeinitGlobalVariables DEINIT_THREAD_LOCAL_GLOBALS) = length (filter destroys ops)"
    using assms by (rule interleaved_runs)
next
  fix k assume k: "k < length ops"
  from interleave_length[OF assms(1)] k have "k < length as" by simp
  with assms(2) have r: "returned (as ! k)" by (simp add: list_all_length)
  note h = history_runs[OF assms(1) k r]
  from h show "count_list (history sched (map start ops) s k) (Call_InitOrDeinitGlobalVariables INIT_GLOBALS)
           = count_list (history sched (map start ops) s k) (Call_atomicAdd 1 1)" by blast
  from h show "count_list (history sched (map start ops) s k) (Call_atomicAdd 1 1) \<le> 1" by blast
  from h show "count_list (history sched (map start ops) s k) (Call_InitOrDeinitGlobalVariables DEINIT_GLOBALS)
           = count_list (history sched (map start ops) s k) (Call_atomicAdd (- 1) 0)" by blast
  from h show "count_list (history sched (map start ops) s k) (Call_atomicAdd (- 1) 0) \<le> 1" by blast
  from h show "count_list (history sched (map start ops) s k) (Call_InitOrDeinitGlobalVariables INIT_THREAD_LOCAL_GLOBALS)
           = (if creates (ops ! k) then 1 else 0)" by blast
  from h show "count_list (history sched (map start ops) s k) (Call_InitOrDeinitGlobalVariables DEINIT_THREAD_LOCAL_GLOBALS)
           = (if destroys (ops ! k) then 1 else 0)" by blast
qed

lemmas step_eval = log_def store_defs seq_def konanConstructInstance_def konanDestructInstance_def
  atomicAdd_def Kotlin_unlockRuntimes_def Let_def zeroed_def InitOrDeinitGlobalVariables_def
  walk_initializers.simps unlink_runtime.simps initial_def phase_defs

lemma one_by_one_list:
  "one_by_one = [0,0,0,0,0,0,0,0,0,0,0,0,0,0,0,0,0,0, 1,1,1,1,1,1,1,1,1,
                 2,2,2,2,2,2,2,2,2,2,2,2,2,2,2,2,2,2, 3,3,3,3,3,3,3,3,3]"
  by (simp add: one_by_one_def eval_nat_numeral)

lemma overlapping_list:
  "overlapping = [0,1,0,1,0,1,0,1,0,1,0,1,0,1,0,1,0,1,0,1,0,1,0,1,0,1,0,1,0,1,0,1,0,1,0,1,0,1,0,1,
                  2,3,2,3,2,3,2,3,2,3,2,3,2,3,2,3,2,3,2,3,2,3]"
  by (simp add: overlapping_def eval_nat_numeral)

text \<open>
  C1 as stated fails: when an instance is created, destroyed, created again and destroyed
  again, all calls have returned and \<^verbatim>\<open>INIT_GLOBALS\<close> has run twice, and so has \<^verbatim>\<open>DEINIT_GLOBALS\<close>.
\<close>

theorem phase_runs_interleaved_counterexample:
  "map_sum id (\<lambda>(as, s). (list_all returned as,
       count_list (trace s) (Call_InitOrDeinitGlobalVariables INIT_GLOBALS),
       count_list (trace s) (Call_InitOrDeinitGlobalVariables DEINIT_GLOBALS)))
     (interleave one_by_one (map start repeated_ops) initial)
   = Inr (True, 2, 2)"
  by (simp add: one_by_one_list repeated_ops_def step_eval)

theorem phase_runs_interleaved_witness:
  "\<exists>as s'. interleave overlapping (map start two_threads_ops) initial = Inr (as, s')
     \<and> list_all returned as
     \<and> count_list (trace s') (Call_InitOrDeinitGlobalVariables INIT_GLOBALS) = count_list (trace s') (Call_atomicAdd 1 1)
     \<and> count_list (trace s') (Call_InitOrDeinitGlobalVariables DEINIT_GLOBALS) = count_list (trace s') (Call_atomicAdd (- 1) 0)
     \<and> count_list (trace s') (Call_InitOrDeinitGlobalVariables INIT_THREAD_LOCAL_GLOBALS) = 2
     \<and> count_list (trace s') (Call_InitOrDeinitGlobalVariables DEINIT_THREAD_LOCAL_GLOBALS) = 2"
proof -
  have "\<exists>as s'. interleave overlapping (map start two_threads_ops) initial = Inr (as, s') \<and> list_all returned as"
    by (simp add: overlapping_list two_threads_ops_def step_eval)
  then obtain as s' where r: "interleave overlapping (map start two_threads_ops) initial = Inr (as, s')"
    and a: "list_all returned as"
    by blast
  from phase_runs_interleaved [OF r a] r a show ?thesis
    by (auto simp: initial_def two_threads_ops_def)
qed

subsection \<open>The status \<^verbatim>\<open>DESTROYING\<close> is final\<close>

lemma expects_live_simps:
  "expects_live (Call_compareAndSwap q old new) = (old = SUSPENDED \<or> old = RUNNING)"
  "expects_live Call_SetKonanTerminateHandler" "expects_live Call_konanConstructInstance"
  "expects_live (Call_konanDestructInstance a)" "expects_live Call_InitMemory"
  "expects_live (Call_DeinitMemory m)" "expects_live Call_SuspendMemory" "expects_live (Call_ResumeMemory m)"
  "expects_live (Call_atomicAdd d v)" "expects_live Call_spinLock" "expects_live Call_spinUnlock"
  "expects_live Call_setThreadInterruptHandler" "expects_live Call_consoleInit" "expects_live Call_onThreadExit"
  "expects_live (Call_InitOrDeinitGlobalVariables tag)" "expects_live (Call_init f tag)"
  "expects_live (Call_handler h a)" "expects_live (Store l)"
  by (simp_all add: expects_live_def)

lemma expects_live_phase_events: "list_all expects_live (phase_events tag fs)"
  by (simp add: phase_events_def list_all_iff expects_live_simps)

lemma expects_live_stores: "\<forall>e \<in> set u. \<exists>l. e = Store l \<Longrightarrow> list_all expects_live u"
  by (auto simp: list_all_iff expects_live_simps)

lemma destroying_status:
  "map_option executionStatus (heap s' p) = map_option executionStatus (heap s p) \<Longrightarrow>
   destroying s' p = destroying s p"
  by (auto simp: destroying_def split: option.splits)

lemma updateStatusIf_terminal:
  assumes "updateStatusIf ptr old new s = Inr (ok, s1)" and "old = SUSPENDED \<or> old = RUNNING"
  shows "\<exists>q r. ptr = Some q \<and> heap s q = Some r
     \<and> trace s1 = trace s @ [Call_compareAndSwap q old new]
     \<and> runtimeState s1 = runtimeState s
     \<and> (ok \<longrightarrow> \<not> destroying s q \<and> heap s1 = (heap s)(q \<mapsto> r\<lparr>executionStatus := new\<rparr>))
     \<and> (\<not> ok \<longrightarrow> heap s1 = heap s)"
proof -
  from assms(1) obtain q r where q: "ptr = Some q" "heap s q = Some r"
    by (auto simp: updateStatusIf_def split: option.splits)
  show ?thesis
  proof (cases "executionStatus r = old")
    case True
    with q assms(1) have "ok" "s1 = s\<lparr>heap := (heap s)(q \<mapsto> r\<lparr>executionStatus := new\<rparr>),
        trace := trace s @ [Call_compareAndSwap q old new]\<rparr>"
      by (simp_all add: updateStatusIf_def log_def)
    moreover from True q assms(2) have "\<not> destroying s q"
      by (auto simp: destroying_def status_defs)
    ultimately show ?thesis using q by simp
  next
    case False
    with q assms(1) have "\<not> ok" "s1 = s\<lparr>trace := trace s @ [Call_compareAndSwap q old new]\<rparr>"
      by (simp_all add: updateStatusIf_def log_def)
    then show ?thesis using q by simp
  qed
qed

lemma initRuntime_terminal:
  assumes "initRuntime t alloc mem s = Inr (result, s')"
  shows "result = alloc \<and> runtimeState s' = runtimeState s
     \<and> (\<exists>es. trace s' = trace s @ es \<and> list_all expects_live es)
     \<and> (\<forall>p. alloc \<noteq> Some p \<longrightarrow> heap s' p = heap s p)"
proof (cases alloc)
  case None
  with assms have "result = None" "s' = s\<lparr>trace := trace s @ [Call_SetKonanTerminateHandler, Call_konanConstructInstance]\<rparr>"
    by (simp_all add: initRuntime_null)
  with None show ?thesis by (simp add: expects_live_simps)
next
  case (Some a)
  with initRuntime_returns[of t a mem s result s'] assms obtain fs gs where
    r: "result = Some a" and s': "s' = (created t a mem s)\<lparr>trace := trace s
            @ create_events t a (aliveRuntimesCount s + 1)
            @ (if aliveRuntimesCount s + 1 = 1 then first_events t @ phase_events INIT_GLOBALS fs else [])
            @ phase_events INIT_THREAD_LOCAL_GLOBALS gs\<rparr>"
    by blast
  have "list_all expects_live (create_events t a (aliveRuntimesCount s + 1)
            @ (if aliveRuntimesCount s + 1 = 1 then first_events t @ phase_events INIT_GLOBALS fs else [])
            @ phase_events INIT_THREAD_LOCAL_GLOBALS gs)"
    by (simp add: expects_live_phase_events create_events_def first_events_def expects_live_simps)
  moreover from s' have "trace s' = trace s @ (create_events t a (aliveRuntimesCount s + 1)
            @ (if aliveRuntimesCount s + 1 = 1 then first_events t @ phase_events INIT_GLOBALS fs else [])
            @ phase_events INIT_THREAD_LOCAL_GLOBALS gs)"
    by simp
  ultimately have "\<exists>es. trace s' = trace s @ es \<and> list_all expects_live es" by blast
  moreover from s' have "runtimeState s' = runtimeState s" "\<forall>p. Some a \<noteq> Some p \<longrightarrow> heap s' p = heap s p"
    by (simp_all add: created_def)
  ultimately show ?thesis using r Some by simp
qed

lemma deinitRuntime_terminal:
  assumes "deinitRuntime state s = Inr s'"
  shows "\<exists>p. state = Some p \<and> runtimeState s' = runtimeState s
     \<and> (\<exists>es. trace s' = trace s @ es \<and> list_all expects_live es)
     \<and> (\<forall>q. q \<noteq> p \<longrightarrow> destroying s' q = destroying s q)"
  using deinitRuntime_returns[OF assms]
proof (elim exE conjE)
  fix p fs gs u m
  assume p: "state = Some p"
    and tr: "trace s' = trace s @ Call_atomicAdd (- 1) (aliveRuntimesCount s - 1)
          # phase_events DEINIT_THREAD_LOCAL_GLOBALS fs
          @ (if aliveRuntimesCount s - 1 = 0 then phase_events DEINIT_GLOBALS gs else [])
          @ Call_spinLock # u @ [Call_spinUnlock, Call_DeinitMemory m, Call_konanDestructInstance p]"
    and u: "\<forall>e \<in> set u. \<exists>l. e = Store l"
    and st: "\<forall>q. q \<noteq> p \<longrightarrow> map_option executionStatus (heap s' q) = map_option executionStatus (heap s q)"
    and rs: "runtimeState s' = runtimeState s"
  have live: "list_all expects_live (Call_atomicAdd (- 1) (aliveRuntimesCount s - 1)
          # phase_events DEINIT_THREAD_LOCAL_GLOBALS fs
          @ (if aliveRuntimesCount s - 1 = 0 then phase_events DEINIT_GLOBALS gs else [])
          @ Call_spinLock # u @ [Call_spinUnlock, Call_DeinitMemory m, Call_konanDestructInstance p])"
    using expects_live_stores[OF u]
    by (simp add: expects_live_phase_events expects_live_simps)
  have a: "\<exists>es. trace s' = trace s @ es \<and> list_all expects_live es"
    by (rule exI, rule conjI, rule tr, rule live)
  have b: "\<forall>q. q \<noteq> p \<longrightarrow> destroying s' q = destroying s q"
  proof (intro allI impI)
    fix q assume "q \<noteq> p"
    with st have "map_option executionStatus (heap s' q) = map_option executionStatus (heap s q)" by simp
    then show "destroying s' q = destroying s q" by (rule destroying_status)
  qed
  show ?thesis
    by (rule exI[of _ p], intro conjI, rule p, rule rs, rule a, rule b)
qed

lemma initRuntimeIfNeeded_terminal:
  assumes "Kotlin_initRuntimeIfNeeded t alloc mem s = Inr s'"
  shows "(\<exists>es. trace s' = trace s @ es \<and> list_all expects_live es)
     \<and> (\<forall>p. destroying s p \<longrightarrow> alloc \<noteq> Some p \<longrightarrow> destroying s' p)"
proof (cases "runtimeState s t = None")
  case False
  with assms have "s' = s" by (auto simp: Kotlin_initRuntimeIfNeeded_def)
  then show ?thesis by simp
next
  case True
  with assms obtain result s1 ok s3 where
    a: "initRuntime t alloc mem s = Inr (result, s1)"
    and b: "updateStatusIf (runtimeState (store_runtimeState t result s1) t) SUSPENDED RUNNING
              (store_runtimeState t result s1) = Inr (ok, s3)"
    and c: "s' = log Call_onThreadExit s3"
    by (auto simp: Kotlin_initRuntimeIfNeeded_def seq_def RuntimeCheck_def Let_def
        split: sum.splits if_splits)
  from initRuntime_terminal[OF a] obtain es1 where
    r: "result = alloc" and e1: "trace s1 = trace s @ es1" "list_all expects_live es1"
    and h1: "\<forall>p. alloc \<noteq> Some p \<longrightarrow> heap s1 p = heap s p"
    by (elim conjE exE)
  from updateStatusIf_terminal[OF b] obtain q rq where
    e3: "trace s3 = trace (store_runtimeState t result s1) @ [Call_compareAndSwap q SUSPENDED RUNNING]"
    and h3: "ok \<longrightarrow> heap s3 = (heap (store_runtimeState t result s1))(q \<mapsto> rq\<lparr>executionStatus := RUNNING\<rparr>)"
      "\<not> ok \<longrightarrow> heap s3 = heap (store_runtimeState t result s1)"
    and q: "runtimeState (store_runtimeState t result s1) t = Some q"
    by auto
  from q r have qa: "alloc = Some q" by (simp add: store_runtimeState_def log_def)
  have "trace s' = trace s @ (es1 @ [Store (TL_runtimeState t), Call_compareAndSwap q SUSPENDED RUNNING, Call_onThreadExit])"
    by (simp add: c e3 e1 log_def store_runtimeState_def)
  moreover have "list_all expects_live (es1 @ [Store (TL_runtimeState t), Call_compareAndSwap q SUSPENDED RUNNING, Call_onThreadExit])"
    using e1(2) by (simp add: expects_live_simps)
  ultimately have tr: "\<exists>es. trace s' = trace s @ es \<and> list_all expects_live es"
    by (rule_tac x = "es1 @ [Store (TL_runtimeState t), Call_compareAndSwap q SUSPENDED RUNNING, Call_onThreadExit]" in exI) simp
  have "destroying s' p" if "destroying s p" "alloc \<noteq> Some p" for p
  proof -
    from that(2) qa have "p \<noteq> q" by auto
    with h3 have "heap s3 p = heap (store_runtimeState t result s1) p" by (cases ok) auto
    with h1 that(2) have "heap s' p = heap s p"
      by (simp add: c log_def store_runtimeState_def)
    with that(1) show ?thesis by (simp add: destroying_def)
  qed
  with tr show ?thesis by blast
qed

lemma deinitRuntimeIfNeeded_terminal:
  assumes "Kotlin_deinitRuntimeIfNeeded t s = Inr s'"
  shows "(\<exists>es. trace s' = trace s @ es \<and> list_all expects_live es)
     \<and> (\<forall>p. destroying s p \<longrightarrow> destroying s' p)"
proof (cases "runtimeState s t = None")
  case True
  with assms have "s' = s" by (auto simp: Kotlin_deinitRuntimeIfNeeded_def)
  then show ?thesis by simp
next
  case False
  with assms obtain s1 s2 where
    a: "updateStatusIf (runtimeState s t) RUNNING DESTROYING s = Inr (True, s1)"
    and b: "deinitRuntime (runtimeState s1 t) s1 = Inr s2"
    and c: "s' = store_runtimeState t None s2"
    by (auto simp: Kotlin_deinitRuntimeIfNeeded_def seq_def RuntimeCheck_def
        split: sum.splits if_splits)
  from updateStatusIf_terminal[OF a] obtain q rq where
    q: "runtimeState s t = Some q" and e1: "trace s1 = trace s @ [Call_compareAndSwap q RUNNING DESTROYING]"
    and rs: "runtimeState s1 = runtimeState s"
    and nd: "\<not> destroying s q" and h1: "heap s1 = (heap s)(q \<mapsto> rq\<lparr>executionStatus := DESTROYING\<rparr>)"
    by auto
  from deinitRuntime_terminal[OF b] rs q obtain es2 where
    e2: "trace s2 = trace s1 @ es2" "list_all expects_live es2"
    and h2: "\<forall>p. p \<noteq> q \<longrightarrow> destroying s2 p = destroying s1 p"
    by auto
  have "trace s' = trace s @ (Call_compareAndSwap q RUNNING DESTROYING # es2 @ [Store (TL_runtimeState t)])"
    by (simp add: c e2 e1 log_def store_runtimeState_def)
  moreover have "list_all expects_live (Call_compareAndSwap q RUNNING DESTROYING # es2 @ [Store (TL_runtimeState t)])"
    using e2(2) by (simp add: expects_live_simps)
  ultimately have tr: "\<exists>es. trace s' = trace s @ es \<and> list_all expects_live es"
    by (rule_tac x = "Call_compareAndSwap q RUNNING DESTROYING # es2 @ [Store (TL_runtimeState t)]" in exI) simp
  have "destroying s' p" if "destroying s p" for p
  proof -
    from that nd have "p \<noteq> q" by auto
    with h1 that have "destroying s1 p" by (simp add: destroying_def)
    with h2 \<open>p \<noteq> q\<close> have "destroying s2 p" by simp
    then show ?thesis by (simp add: c destroying_def store_runtimeState_def log_def)
  qed
  with tr show ?thesis by blast
qed

lemma destroyRuntime_terminal:
  assumes "Kotlin_destroyRuntime state s = Inr s'"
  shows "(\<exists>es. trace s' = trace s @ es \<and> list_all expects_live es)
     \<and> (\<forall>p. destroying s p \<longrightarrow> destroying s' p)"
proof -
  from assms obtain s1 where
    a: "updateStatusIf state SUSPENDED DESTROYING s = Inr (True, s1)"
    and b: "deinitRuntime state s1 = Inr s'"
    by (auto simp: Kotlin_destroyRuntime_def seq_def RuntimeCheck_def split: sum.splits if_splits)
  from updateStatusIf_terminal[OF a] obtain q rq where
    q: "state = Some q" and e1: "trace s1 = trace s @ [Call_compareAndSwap q SUSPENDED DESTROYING]"
    and nd: "\<not> destroying s q" and h1: "heap s1 = (heap s)(q \<mapsto> rq\<lparr>executionStatus := DESTROYING\<rparr>)"
    by auto
  from deinitRuntime_terminal[OF b] q obtain es2 where
    e2: "trace s' = trace s1 @ es2" "list_all expects_live es2"
    and h2: "\<forall>p. p \<noteq> q \<longrightarrow> destroying s' p = destroying s1 p"
    by auto
  have "trace s' = trace s @ (Call_compareAndSwap q SUSPENDED DESTROYING # es2)"
    by (simp add: e2 e1)
  moreover have "list_all expects_live (Call_compareAndSwap q SUSPENDED DESTROYING # es2)"
    using e2(2) by (simp add: expects_live_simps)
  ultimately have tr: "\<exists>es. trace s' = trace s @ es \<and> list_all expects_live es"
    by (rule_tac x = "Call_compareAndSwap q SUSPENDED DESTROYING # es2" in exI) simp
  have "destroying s' p" if "destroying s p" for p
  proof -
    from that nd have "p \<noteq> q" by auto
    with h1 that have "destroying s1 p" by (simp add: destroying_def)
    with h2 \<open>p \<noteq> q\<close> show ?thesis by simp
  qed
  with tr show ?thesis by blast
qed

lemma suspendRuntime_terminal:
  assumes "Kotlin_suspendRuntime t mem s = Inr (result, s')"
  shows "(\<exists>es. trace s' = trace s @ es \<and> list_all expects_live es)
     \<and> (\<forall>p. destroying s p \<longrightarrow> destroying s' p)"
proof -
  from assms obtain s1 s2 where
    a: "updateStatusIf (runtimeState s t) RUNNING SUSPENDED s = Inr (True, s1)"
    and b: "store_memoryState (runtimeState s t) mem (log Call_SuspendMemory s1) = Inr s2"
    and c: "s' = store_runtimeState t None s2"
    by (auto simp: Kotlin_suspendRuntime_def seq_def RuntimeCheck_def Let_def split: sum.splits if_splits)
  from updateStatusIf_terminal[OF a] obtain q rq where
    q: "runtimeState s t = Some q" and e1: "trace s1 = trace s @ [Call_compareAndSwap q RUNNING SUSPENDED]"
    and nd: "\<not> destroying s q" and h1: "heap s1 = (heap s)(q \<mapsto> rq\<lparr>executionStatus := SUSPENDED\<rparr>)"
    by auto
  from b q have e2: "trace s2 = trace s1 @ [Call_SuspendMemory, Store (F_memoryState q)]"
    and h2: "\<forall>p. p \<noteq> q \<longrightarrow> heap s2 p = heap s1 p"
    by (auto simp: store_memoryState_def log_def split: option.splits)
  have "trace s' = trace s @ [Call_compareAndSwap q RUNNING SUSPENDED, Call_SuspendMemory,
      Store (F_memoryState q), Store (TL_runtimeState t)]"
    by (simp add: c e2 e1 store_runtimeState_def log_def)
  moreover have "list_all expects_live [Call_compareAndSwap q RUNNING SUSPENDED, Call_SuspendMemory,
      Store (F_memoryState q), Store (TL_runtimeState t)]"
    by (simp add: expects_live_simps)
  ultimately have tr: "\<exists>es. trace s' = trace s @ es \<and> list_all expects_live es"
    by (rule_tac x = "[Call_compareAndSwap q RUNNING SUSPENDED, Call_SuspendMemory,
      Store (F_memoryState q), Store (TL_runtimeState t)]" in exI) simp
  have "destroying s' p" if "destroying s p" for p
  proof -
    from that nd have "p \<noteq> q" by auto
    with h1 h2 have "heap s' p = heap s p" by (simp add: c store_runtimeState_def log_def)
    with that show ?thesis by (simp add: destroying_def)
  qed
  with tr show ?thesis by blast
qed

lemma resumeRuntime_terminal:
  assumes "Kotlin_resumeRuntime t state s = Inr s'"
  shows "(\<exists>es. trace s' = trace s @ es \<and> list_all expects_live es)
     \<and> (\<forall>p. destroying s p \<longrightarrow> destroying s' p)"
proof -
  from assms obtain s1 m where
    a: "updateStatusIf state SUSPENDED RUNNING s = Inr (True, s1)"
    and c: "s' = log (Call_ResumeMemory m) (store_runtimeState t state s1)"
    by (auto simp: Kotlin_resumeRuntime_def seq_def RuntimeCheck_def Let_def split: sum.splits if_splits)
  from updateStatusIf_terminal[OF a] obtain q rq where
    q: "state = Some q" and e1: "trace s1 = trace s @ [Call_compareAndSwap q SUSPENDED RUNNING]"
    and nd: "\<not> destroying s q" and h1: "heap s1 = (heap s)(q \<mapsto> rq\<lparr>executionStatus := RUNNING\<rparr>)"
    by auto
  have "trace s' = trace s @ [Call_compareAndSwap q SUSPENDED RUNNING, Store (TL_runtimeState t), Call_ResumeMemory m]"
    by (simp add: c e1 store_runtimeState_def log_def)
  moreover have "list_all expects_live [Call_compareAndSwap q SUSPENDED RUNNING, Store (TL_runtimeState t), Call_ResumeMemory m]"
    by (simp add: expects_live_simps)
  ultimately have tr: "\<exists>es. trace s' = trace s @ es \<and> list_all expects_live es"
    by (rule_tac x = "[Call_compareAndSwap q SUSPENDED RUNNING, Store (TL_runtimeState t), Call_ResumeMemory m]" in exI) simp
  have "destroying s' p" if "destroying s p" for p
  proof -
    from that nd have "p \<noteq> q" by auto
    with h1 have "heap s' p = heap s p" by (simp add: c store_runtimeState_def log_def)
    with that show ?thesis by (simp add: destroying_def)
  qed
  with tr show ?thesis by blast
qed

lemma createRuntime_terminal:
  assumes "Kotlin_createRuntime t alloc mem s = Inr (result, s')"
  shows "(\<exists>es. trace s' = trace s @ es \<and> list_all expects_live es)
     \<and> (\<forall>p. destroying s p \<longrightarrow> alloc \<noteq> Some p \<longrightarrow> destroying s' p)"
proof -
  from assms have "initRuntime t alloc mem s = Inr (result, s')"
    by (simp add: Kotlin_createRuntime_def)
  from initRuntime_terminal[OF this] show ?thesis
    by (auto simp: destroying_def)
qed

lemma exec_terminal:
  assumes "exec op s = Inr s'"
  shows "(\<exists>es. trace s' = trace s @ es \<and> list_all expects_live es)
     \<and> (\<forall>p. destroying s p \<longrightarrow> allocation op \<noteq> Some p \<longrightarrow> destroying s' p)"
proof (cases op)
  case (AttachOrCreate t alloc mem)
  with assms initRuntimeIfNeeded_terminal[of t alloc mem s s'] show ?thesis by simp
next
  case (DetachIfAttached t)
  with assms deinitRuntimeIfNeeded_terminal[of t s s'] show ?thesis by simp
next
  case (CreateDetached t alloc mem)
  with assms obtain result where "Kotlin_createRuntime t alloc mem s = Inr (result, s')"
    by (auto simp: seq_def split: sum.splits)
  from createRuntime_terminal[OF this] CreateDetached show ?thesis by simp
next
  case (Destroy state)
  with assms destroyRuntime_terminal[of state s s'] show ?thesis by simp
next
  case (Suspend t mem)
  with assms obtain result where "Kotlin_suspendRuntime t mem s = Inr (result, s')"
    by (auto simp: seq_def split: sum.splits)
  from suspendRuntime_terminal[OF this] show ?thesis by simp
next
  case (Resume t state)
  with assms resumeRuntime_terminal[of t state s s'] show ?thesis by simp
qed

text \<open>
  C8. No operation takes an instance out of \<^verbatim>\<open>DESTROYING\<close>: when an operation returns, an
  instance that was \<^verbatim>\<open>DESTROYING\<close> before it is still there and still \<^verbatim>\<open>DESTROYING\<close> (the
  allocator does not yield the address of a live object), and every compare-and-swap the
  operation made on a status expected \<^verbatim>\<open>SUSPENDED\<close> or \<^verbatim>\<open>RUNNING\<close>.
\<close>

theorem destroying_is_terminal:
  assumes "exec op s = Inr s'" and "heap s p = Some r" and "executionStatus r = DESTROYING"
    and "allocation op \<noteq> Some p"
  shows "(\<exists>r'. heap s' p = Some r' \<and> executionStatus r' = DESTROYING)
     \<and> (\<exists>es. trace s' = trace s @ es
           \<and> (\<forall>q old new. Call_compareAndSwap q old new \<in> set es \<longrightarrow> old = SUSPENDED \<or> old = RUNNING))"
proof -
  from assms(2,3) have "destroying s p" by (simp add: destroying_def)
  with exec_terminal[OF assms(1)] assms(4) obtain es where
    d: "destroying s' p" and tr: "trace s' = trace s @ es" and live: "list_all expects_live es"
    by blast
  from d have "\<exists>r'. heap s' p = Some r' \<and> executionStatus r' = DESTROYING"
    by (auto simp: destroying_def split: option.splits)
  moreover have "old = SUSPENDED \<or> old = RUNNING" if "Call_compareAndSwap q old new \<in> set es" for q old new
  proof -
    from live that have "expects_live (Call_compareAndSwap q old new)"
      by (simp add: list_all_iff)
    then show ?thesis by (simp add: expects_live_simps)
  qed
  ultimately show ?thesis using tr by blast
qed

theorem destroying_is_terminal_witness:
  "\<exists>s'. exec (Suspend 5 43) destroying_state = Inr s'
     \<and> map_option executionStatus (heap destroying_state 32) = Some DESTROYING
     \<and> (\<exists>r'. heap s' 32 = Some r' \<and> executionStatus r' = DESTROYING)"
proof -
  have "\<exists>s'. exec (Suspend 5 43) destroying_state = Inr s'"
    by (simp add: Kotlin_suspendRuntime_def destroying_state_def eval_defs)
  then obtain s' where r: "exec (Suspend 5 43) destroying_state = Inr s'" by blast
  have h: "heap destroying_state 32 = Some \<lparr>threadId = 6, handler = None, memoryState = 44,
      next = Some 16, executionStatus = 2\<rparr>"
    by (simp add: destroying_state_def)
  have st: "executionStatus \<lparr>threadId = 6, handler = None, memoryState = 44,
      next = Some 16, executionStatus = 2\<rparr> = DESTROYING"
    by (simp add: DESTROYING_def)
  have al: "allocation (Suspend 5 43) \<noteq> Some 32" by simp
  from destroying_is_terminal [OF r h st al] r h show ?thesis
    by (auto simp: DESTROYING_def)
qed

end
